theory Spec2Isabelle
  imports Complex_Main
begin

section \<open>Python values used by the battery agent\<close>

text \<open>
  The agent is a Python program. Its integers are unbounded (\<open>int\<close>), its floats are
  IEEE binary64 numbers, and an exception is a value of type \<open>error\<close> on the left of a sum.
\<close>

datatype error = OverflowError | ZeroDivisionError | ValueError

subsection \<open>Floats\<close>

text \<open>
  A float is a finite binary64 number, kept as the rational it denotes, an infinity or
  a NaN. The sign of a zero is not represented; no comparison of the program reads it.
\<close>

datatype pyfloat = Finite rat | PosInf | NegInf | NaN

function ilog2 :: "int \<Rightarrow> int" where
  \<comment> \<open>for \<open>1 \<le> n\<close>: the \<open>k\<close> with \<open>2 ^ k \<le> n < 2 ^ (k + 1)\<close>\<close>
  "ilog2 n = (if n < 2 then 0 else 1 + ilog2 (n div 2))"
  by pat_completeness auto
termination
  by (relation "measure nat") auto

declare ilog2.simps [simp del]

definition pow2 :: "int \<Rightarrow> rat" where
  "pow2 e = (if 0 \<le> e then 2 ^ nat e else 1 / 2 ^ nat (- e))"

definition floor_log2 :: "rat \<Rightarrow> int" where
  \<comment> \<open>for \<open>0 < x\<close>: the \<open>e\<close> with \<open>2 ^ e \<le> x < 2 ^ (e + 1)\<close>\<close>
  "floor_log2 x =
     (let (p, q) = quotient_of x;
          e = ilog2 p - ilog2 q
      in if pow2 e \<le> x then e else e - 1)"

definition round_half_even :: "rat \<Rightarrow> int" where
  "round_half_even x =
     (let f = \<lfloor>x\<rfloor>; d = x - of_int f
      in if d < 1 / 2 then f
         else if 1 / 2 < d then f + 1
         else if even f then f else f + 1)"

definition round_double :: "rat \<Rightarrow> rat" where
  \<comment> \<open>round to nearest, ties to even, with 53 significant bits, or to a multiple of
      \<open>2 ^ -1074\<close> in the subnormal range; the exponent is not bounded above here\<close>
  "round_double x =
     (if x = 0 then 0
      else let u = pow2 (max (floor_log2 \<bar>x\<bar>) (- 1022) - 52)
           in of_int (round_half_even (x / u)) * u)"

definition overflows :: "rat \<Rightarrow> bool" where
  \<comment> \<open>the magnitude is \<open>2 ^ 1024\<close> or more: beyond the largest binary64 exponent\<close>
  "overflows r = (r \<noteq> 0 \<and> 1023 < floor_log2 \<bar>r\<bar>)"

definition to_double :: "rat \<Rightarrow> pyfloat" where
  \<comment> \<open>the float an IEEE operation delivers for the exact result \<open>x\<close>\<close>
  "to_double x =
     (let r = round_double x
      in if overflows r then (if 0 < r then PosInf else NegInf)
         else Finite r)"

definition truediv :: "int \<Rightarrow> int \<Rightarrow> error + pyfloat" where
  \<comment> \<open>\<open>a / b\<close> on two ints: correctly rounded; a quotient too large for a float raises\<close>
  "truediv a b =
     (if b = 0 then Inl ZeroDivisionError
      else case to_double (of_int a / of_int b) of
             Finite r \<Rightarrow> Inr (Finite r)
           | _ \<Rightarrow> Inl OverflowError)"

fun fmul :: "pyfloat \<Rightarrow> pyfloat \<Rightarrow> pyfloat" where
  "fmul (Finite x) (Finite y) = to_double (x * y)"
| "fmul NaN _ = NaN"
| "fmul _ NaN = NaN"
| "fmul (Finite x) PosInf = (if x = 0 then NaN else if 0 < x then PosInf else NegInf)"
| "fmul (Finite x) NegInf = (if x = 0 then NaN else if 0 < x then NegInf else PosInf)"
| "fmul PosInf (Finite y) = (if y = 0 then NaN else if 0 < y then PosInf else NegInf)"
| "fmul NegInf (Finite y) = (if y = 0 then NaN else if 0 < y then NegInf else PosInf)"
| "fmul PosInf PosInf = PosInf"
| "fmul PosInf NegInf = NegInf"
| "fmul NegInf PosInf = NegInf"
| "fmul NegInf NegInf = PosInf"

fun fsub :: "pyfloat \<Rightarrow> pyfloat \<Rightarrow> pyfloat" where
  "fsub (Finite x) (Finite y) = to_double (x - y)"
| "fsub NaN _ = NaN"
| "fsub _ NaN = NaN"
| "fsub PosInf PosInf = NaN"
| "fsub NegInf NegInf = NaN"
| "fsub PosInf _ = PosInf"
| "fsub NegInf _ = NegInf"
| "fsub _ PosInf = NegInf"
| "fsub _ NegInf = PosInf"

fun py_round2 :: "pyfloat \<Rightarrow> pyfloat" where
  \<comment> \<open>\<open>round(x, 2)\<close>: the exact value of \<open>x\<close> rounded half-even to two decimals, and
      that decimal converted back to the nearest float; infinities and NaN are returned
      unchanged\<close>
  "py_round2 (Finite x) = Finite (round_double (of_int (round_half_even (x * 100)) / 100))"
| "py_round2 f = f"

fun float_ge_int :: "pyfloat \<Rightarrow> int \<Rightarrow> bool" where
  \<comment> \<open>\<open>x >= n\<close> for a float and an int: compared exactly\<close>
  "float_ge_int (Finite x) n = (of_int n \<le> x)"
| "float_ge_int PosInf n = True"
| "float_ge_int NegInf n = False"
| "float_ge_int NaN n = False"

section \<open>Data model\<close>

record BatteryInfo =
  name :: "string option"
  manufacturer :: "string option"
  chemistry :: "string option"
  design_capacity_mwh :: "int option"
  full_charge_capacity_mwh :: "int option"
  cycle_count :: "int option"

text \<open>The dictionary that \<open>compute_health\<close> returns, one field for each key.\<close>

record HealthAssessment =
  health_percentage :: "pyfloat option"
  degradation_percentage :: "pyfloat option"
  cycle_penalty :: int
  estimated_remaining_life :: string

section \<open>Health Scorer\<close>

definition truthy :: "int option \<Rightarrow> bool" where
  \<comment> \<open>truth value of an \<open>Optional[int]\<close>: \<open>None\<close> and \<open>0\<close> are false\<close>
  "truthy v = (case v of None \<Rightarrow> False | Some n \<Rightarrow> n \<noteq> 0)"

definition compute_health :: "BatteryInfo \<Rightarrow> error + HealthAssessment" where
  "compute_health battery =
     (case (if \<not> truthy (design_capacity_mwh battery) \<or> \<not> truthy (full_charge_capacity_mwh battery)
            then Inr None
            else case truediv (the (full_charge_capacity_mwh battery))
                              (the (design_capacity_mwh battery)) of
                   Inl e \<Rightarrow> Inl e
                 | Inr q \<Rightarrow> Inr (Some (py_round2 (fmul q (Finite 100))))) of
        Inl e \<Rightarrow> Inl e
      | Inr health_pct \<Rightarrow>
          let degradation_pct =
                (case health_pct of
                   None \<Rightarrow> None
                 | Some h \<Rightarrow> Some (py_round2 (fsub (Finite 100) h)));
              penalty =
                (if truthy (cycle_count battery) \<and> 500 < the (cycle_count battery)
                 then min 15 ((the (cycle_count battery) - 500) div 50)
                 else 0);
              life =
                (case health_pct of
                   None \<Rightarrow> ''unknown''
                 | Some h \<Rightarrow>
                     if float_ge_int h 85 then ''18-24 months''
                     else if float_ge_int h 70 then ''12-18 months''
                     else if float_ge_int h 60 then ''6-12 months''
                     else ''0-6 months'')
          in Inr \<lparr> health_percentage = health_pct,
                   degradation_percentage = degradation_pct,
                   cycle_penalty = penalty,
                   estimated_remaining_life = life \<rparr>)"

section \<open>Text\<close>

text \<open>
  A Python string is modelled as a \<open>string\<close>, a list of characters, each character one
  code point in the range 0 to 255. The character classes below are Python's on that
  range.
\<close>

definition is_space :: "char \<Rightarrow> bool" where
  \<comment> \<open>the class \<open>\s\<close> of \<open>re\<close>, and the characters \<open>str.strip\<close> removes\<close>
  "is_space c =
     (let n = (of_char c :: nat)
      in (9 \<le> n \<and> n \<le> 13) \<or> (28 \<le> n \<and> n \<le> 32) \<or> n = 133 \<or> n = 160)"

definition is_digit :: "char \<Rightarrow> bool" where
  \<comment> \<open>the class \<open>[0-9]\<close>\<close>
  "is_digit c = (let n = (of_char c :: nat) in 48 \<le> n \<and> n \<le> 57)"

definition py_lower :: "char \<Rightarrow> char" where
  \<comment> \<open>the lower-case form of a character: \<open>A\<close> to \<open>Z\<close>, and the accented capitals
      192 to 222 without the multiplication sign 215\<close>
  "py_lower c =
     (let n = (of_char c :: nat)
      in if (65 \<le> n \<and> n \<le> 90) \<or> (192 \<le> n \<and> n \<le> 222 \<and> n \<noteq> 215)
         then char_of (n + 32) else c)"

definition str_lower :: "string \<Rightarrow> string" where
  \<comment> \<open>\<open>s.lower()\<close>\<close>
  "str_lower s = map py_lower s"

definition strip :: "string \<Rightarrow> string" where
  \<comment> \<open>\<open>s.strip()\<close>\<close>
  "strip s = rev (dropWhile is_space (rev (dropWhile is_space s)))"

function collapse_spaces :: "string \<Rightarrow> string" where
  \<comment> \<open>\<open>re.sub(r"\s+", " ", s)\<close>: every maximal run of whitespace becomes one space\<close>
  "collapse_spaces [] = []"
| "collapse_spaces (c # cs) =
     (if is_space c then CHR '' '' # collapse_spaces (dropWhile is_space cs)
      else c # collapse_spaces cs)"
  by pat_completeness auto
termination
  by (relation "measure length") (auto simp: length_dropWhile_le less_Suc_eq_le)

definition unescape :: "(string \<Rightarrow> string) \<Rightarrow> string \<Rightarrow> string" where
  \<comment> \<open>\<open>html.unescape\<close> of the standard library: a text without \<open>&\<close> is returned as it
      is; otherwise every character reference is replaced. The replacement, which reads
      the table of HTML entities, is the parameter \<open>charrefs\<close>.\<close>
  "unescape charrefs s = (if CHR ''&'' \<notin> set s then s else charrefs s)"

definition clean_html :: "(string \<Rightarrow> string) \<Rightarrow> string \<Rightarrow> string" where
  "clean_html charrefs text = strip (collapse_spaces (unescape charrefs text))"

subsection \<open>Regular expressions\<close>

text \<open>
  The patterns of the agent are sequences of literal characters, single characters of a
  class, and greedy or lazy repetitions of a class. All of them are compiled with
  \<open>re.IGNORECASE | re.DOTALL\<close>: a literal matches a character with the same lower-case
  form, and the dot matches every character.
\<close>

datatype cls =
    Space             \<comment> \<open>\<open>\s\<close>\<close>
  | AnyChar           \<comment> \<open>\<open>.\<close>\<close>
  | NotChar char      \<comment> \<open>\<open>[^c]\<close>\<close>
  | OneOf string      \<comment> \<open>\<open>[abc]\<close>\<close>

datatype item =
    Lit char          \<comment> \<open>a literal character\<close>
  | One cls           \<comment> \<open>one character of a class\<close>
  | Star cls          \<comment> \<open>\<open>k*\<close>, greedy\<close>
  | LazyStar cls      \<comment> \<open>\<open>k*?\<close>, lazy\<close>

fun cls_match :: "cls \<Rightarrow> char \<Rightarrow> bool" where
  "cls_match Space x = is_space x"
| "cls_match AnyChar x = True"
| "cls_match (NotChar c) x = (py_lower x \<noteq> py_lower c)"
| "cls_match (OneOf cs) x = (py_lower x \<in> set (map py_lower cs))"

definition lits :: "string \<Rightarrow> item list" where
  \<comment> \<open>a literal text, as \<open>re.escape\<close> makes of a string\<close>
  "lits s = map Lit s"

fun first_some :: "('a \<Rightarrow> 'b option) \<Rightarrow> 'a list \<Rightarrow> 'b option" where
  "first_some f [] = None"
| "first_some f (x # xs) = (case f x of Some y \<Rightarrow> Some y | None \<Rightarrow> first_some f xs)"

definition with_segment :: "string \<Rightarrow> (string list \<times> string) option \<Rightarrow> (string list \<times> string) option" where
  "with_segment seg res = map_option (\<lambda>(segs, rest). (seg # segs, rest)) res"

text \<open>
  \<open>match_here p s\<close> matches the pattern \<open>p\<close> at the start of \<open>s\<close>, as the backtracking
  matcher of \<open>re\<close> does: a greedy repetition tries the longest run first and gives
  characters back one at a time, a lazy one tries the empty run first and takes
  characters one at a time. The result is the text matched by each item, in order, and
  the text left after the match.
\<close>

fun match_here :: "item list \<Rightarrow> string \<Rightarrow> (string list \<times> string) option" where
  "match_here [] s = Some ([], s)"
| "match_here (Lit c # p) s =
     (case s of
        [] \<Rightarrow> None
      | x # xs \<Rightarrow> if py_lower x = py_lower c then with_segment [x] (match_here p xs) else None)"
| "match_here (One k # p) s =
     (case s of
        [] \<Rightarrow> None
      | x # xs \<Rightarrow> if cls_match k x then with_segment [x] (match_here p xs) else None)"
| "match_here (Star k # p) s =
     first_some (\<lambda>n. with_segment (take n s) (match_here p (drop n s)))
       (rev [0 ..< Suc (length (takeWhile (cls_match k) s))])"
| "match_here (LazyStar k # p) s =
     first_some (\<lambda>n. with_segment (take n s) (match_here p (drop n s)))
       [0 ..< Suc (length (takeWhile (cls_match k) s))]"

definition search :: "item list \<Rightarrow> string \<Rightarrow> (string \<times> string list \<times> string) option" where
  \<comment> \<open>\<open>pattern.search(s)\<close>: the match at the first position that has one; the result is
      the text before the match, the text matched by each item, and the text after\<close>
  "search p s =
     first_some (\<lambda>n. map_option (\<lambda>(segs, rest). (take n s, segs, rest)) (match_here p (drop n s)))
       [0 ..< Suc (length s)]"

function findall :: "item list \<Rightarrow> string \<Rightarrow> string list list" where
  \<comment> \<open>\<open>pattern.findall(s)\<close>: the matches from left to right, each search starting where
      the match before ended. Every pattern of the agent matches at least one character;
      the scan would stop at a match that leaves the text as long as it was.\<close>
  "findall p s =
     (case search p s of
        None \<Rightarrow> []
      | Some (before, segs, rest) \<Rightarrow>
          if length rest < length s then segs # findall p rest else [segs])"
  by pat_completeness auto
termination
  by (relation "measure (\<lambda>(p, s). length s)") auto

declare findall.simps [simp del]

definition group :: "nat \<Rightarrow> nat \<Rightarrow> string list \<Rightarrow> string" where
  \<comment> \<open>the text of a group that spans \<open>n\<close> items from item \<open>i\<close> on\<close>
  "group i n segs = concat (take n (drop i segs))"

section \<open>Report parser\<close>

record CapacityHistoryEntry =
  date :: string
  entry_full_charge_capacity_mwh :: "int option"
  entry_design_capacity_mwh :: "int option"

text \<open>The dictionary that \<open>_parse_system_info\<close> returns, one field for each key.\<close>

record SystemInfo =
  product :: "string option"
  bios :: "string option"
  os_build :: "string option"
  report_time :: "string option"

subsection \<open>Field Extractor and Section Extractor\<close>

definition label_pattern :: "string \<Rightarrow> item list" where
  \<comment> \<open>\<open>{re.escape(label)}\s*</td>\s*<td[^>]*>(.*?)</td>\<close>\<close>
  "label_pattern label =
     lits label @ [Star Space] @ lits ''</td>'' @ [Star Space] @ lits ''<td''
       @ [Star (NotChar (CHR ''>'')), Lit (CHR ''>''), LazyStar AnyChar] @ lits ''</td>''"

definition find_label_value :: "(string \<Rightarrow> string) \<Rightarrow> string \<Rightarrow> string \<Rightarrow> string option" where
  "find_label_value charrefs html label =
     (case search (label_pattern label) html of
        None \<Rightarrow> None
      | Some (before, segs, rest) \<Rightarrow>
          Some (clean_html charrefs (group (length label + 12) 1 segs)))"

definition section_pattern :: "string \<Rightarrow> item list" where
  \<comment> \<open>\<open>{re.escape(title)}\s*</h2>\s*(<table.*?</table>)\<close>\<close>
  "section_pattern title =
     lits title @ [Star Space] @ lits ''</h2>'' @ [Star Space]
       @ lits ''<table'' @ [LazyStar AnyChar] @ lits ''</table>''"

definition extract_section :: "string \<Rightarrow> string \<Rightarrow> string option" where
  "extract_section html title =
     (case search (section_pattern title) html of
        None \<Rightarrow> None
      | Some (before, segs, rest) \<Rightarrow> Some (group (length title + 7) 15 segs))"

subsection \<open>Numeric Coercion\<close>

definition digit_value :: "char \<Rightarrow> int" where
  "digit_value c = int (of_char c) - 48"

definition int_of_digits :: "string \<Rightarrow> int" where
  \<comment> \<open>the number a text of decimal digits denotes\<close>
  "int_of_digits s = foldl (\<lambda>a c. 10 * a + digit_value c) 0 s"

definition py_int :: "string \<Rightarrow> error + int" where
  \<comment> \<open>\<open>int(s)\<close> on a text of decimal digits. A text of more than 4300 digits is refused
      with a \<open>ValueError\<close>: that is the limit \<open>sys.get_int_max_str_digits()\<close> of the
      interpreter, which the agent does not change; leading zeros count. \<open>int\<close> reads
      further forms as well (a sign, blanks around the number, underscores between
      digits); they are treated as invalid here, so the model raises wherever \<open>int\<close>
      does.\<close>
  "py_int s =
     (if s \<noteq> [] \<and> list_all is_digit s
      then if 4300 < length s then Inl ValueError else Inr (int_of_digits s)
      else Inl ValueError)"

definition parse_int :: "string option \<Rightarrow> error + int option" where
  "parse_int v =
     (case v of
        None \<Rightarrow> Inr None
      | Some s \<Rightarrow>
          if s = [] then Inr None
          else let digits = filter is_digit s
               in if digits \<noteq> []
                  then (case py_int digits of Inl e \<Rightarrow> Inl e | Inr n \<Rightarrow> Inr (Some n))
                  else Inr None)"

subsection \<open>History Table Parser\<close>

definition row_pattern :: "item list" where
  \<comment> \<open>\<open><tr>(.*?)</tr>\<close>\<close>
  "row_pattern = lits ''<tr>'' @ [LazyStar AnyChar] @ lits ''</tr>''"

definition cell_pattern :: "item list" where
  \<comment> \<open>\<open><t[dh][^>]*>(.*?)</t[dh]>\<close>\<close>
  "cell_pattern =
     lits ''<t'' @ [One (OneOf ''dh''), Star (NotChar (CHR ''>'')), Lit (CHR ''>''), LazyStar AnyChar]
       @ lits ''</t'' @ [One (OneOf ''dh''), Lit (CHR ''>'')]"

definition rows_of :: "string \<Rightarrow> string list" where
  \<comment> \<open>\<open>row_pattern.findall(table_html)\<close>: the text of the group of each match\<close>
  "rows_of table_html = map (group 4 1) (findall row_pattern table_html)"

definition cells_of :: "(string \<Rightarrow> string) \<Rightarrow> string \<Rightarrow> string list" where
  \<comment> \<open>\<open>[_clean_html(cell) for cell in cell_pattern.findall(row)]\<close>\<close>
  "cells_of charrefs row = map (clean_html charrefs \<circ> group 5 1) (findall cell_pattern row)"

text \<open>
  The loop over the rows: \<open>entries\<close> is the list built so far, and a row is skipped
  (\<open>continue\<close>) or appended.
\<close>

fun history_loop ::
  "(string \<Rightarrow> string) \<Rightarrow> string list \<Rightarrow> CapacityHistoryEntry list
     \<Rightarrow> error + CapacityHistoryEntry list" where
  "history_loop charrefs [] entries = Inr entries"
| "history_loop charrefs (row # rows) entries =
     (let cells = cells_of charrefs row
      in if length cells < 3 then history_loop charrefs rows entries
         else if str_lower (cells ! 0) = ''period'' then history_loop charrefs rows entries
         else case parse_int (Some (cells ! 1)) of
                Inl e \<Rightarrow> Inl e
              | Inr full_charge \<Rightarrow>
                  (case parse_int (Some (cells ! 2)) of
                     Inl e \<Rightarrow> Inl e
                   | Inr design \<Rightarrow>
                       history_loop charrefs rows
                         (entries @ [\<lparr> date = cells ! 0,
                                       entry_full_charge_capacity_mwh = full_charge,
                                       entry_design_capacity_mwh = design \<rparr>])))"

definition parse_capacity_history ::
  "(string \<Rightarrow> string) \<Rightarrow> string \<Rightarrow> error + CapacityHistoryEntry list" where
  "parse_capacity_history charrefs html =
     (case extract_section html ''Battery capacity history'' of
        None \<Rightarrow> Inr []
      | Some table_html \<Rightarrow>
          if table_html = [] then Inr []
          else history_loop charrefs (rows_of table_html) [])"

subsection \<open>Report Parser\<close>

definition parse_system_info :: "(string \<Rightarrow> string) \<Rightarrow> string \<Rightarrow> SystemInfo" where
  "parse_system_info charrefs html =
     \<lparr> product = find_label_value charrefs html ''System Product Name'',
       bios = find_label_value charrefs html ''BIOS'',
       os_build = find_label_value charrefs html ''OS build'',
       report_time = find_label_value charrefs html ''Report Time'' \<rparr>"

text \<open>
  \<open>parse_battery_report\<close> on the text that \<open>report_path.read_text\<close> returned. The
  statements run in the order of the source; an exception in one of them would end the
  function there.
\<close>

definition parse_battery_report ::
  "(string \<Rightarrow> string) \<Rightarrow> string
     \<Rightarrow> error + (SystemInfo \<times> BatteryInfo \<times> CapacityHistoryEntry list)" where
  "parse_battery_report charrefs html =
     (let name' = find_label_value charrefs html ''Name'';
          manufacturer' = find_label_value charrefs html ''Manufacturer'';
          chemistry' = find_label_value charrefs html ''Chemistry''
      in case parse_int (find_label_value charrefs html ''Design Capacity'') of
           Inl e \<Rightarrow> Inl e
         | Inr design_capacity \<Rightarrow>
       (case parse_int (find_label_value charrefs html ''Full Charge Capacity'') of
           Inl e \<Rightarrow> Inl e
         | Inr full_charge_capacity \<Rightarrow>
       (case parse_int (find_label_value charrefs html ''Cycle Count'') of
           Inl e \<Rightarrow> Inl e
         | Inr cycle_count' \<Rightarrow>
       (let system_info = parse_system_info charrefs html;
            battery_info =
              \<lparr> name = name', manufacturer = manufacturer', chemistry = chemistry',
                design_capacity_mwh = design_capacity,
                full_charge_capacity_mwh = full_charge_capacity,
                cycle_count = cycle_count' \<rparr>
        in case parse_capacity_history charrefs html of
             Inl e \<Rightarrow> Inl e
           | Inr history' \<Rightarrow> Inr (system_info, battery_info, history')))))"

section \<open>Vocabulary of the specification\<close>

text \<open>
  The predicates and functions below are not part of the program. They state, in the
  words of the specification, what the program is compared with.
\<close>

fun item_ok :: "item \<Rightarrow> string \<Rightarrow> bool" where
  \<comment> \<open>the text \<open>seg\<close> is one that the item can match\<close>
  "item_ok (Lit c) seg = (case seg of [x] \<Rightarrow> py_lower x = py_lower c | _ \<Rightarrow> False)"
| "item_ok (One k) seg = (case seg of [x] \<Rightarrow> cls_match k x | _ \<Rightarrow> False)"
| "item_ok (Star k) seg = list_all (cls_match k) seg"
| "item_ok (LazyStar k) seg = list_all (cls_match k) seg"

definition ci_eq :: "string \<Rightarrow> string \<Rightarrow> bool" where
  \<comment> \<open>equal but for the case of the letters\<close>
  "ci_eq a b = (str_lower a = str_lower b)"

definition occurs_in :: "string \<Rightarrow> string \<Rightarrow> bool" where
  \<comment> \<open>the label occurs somewhere in the document, in any case of the letters\<close>
  "occurs_in label html \<longleftrightarrow> (\<exists>before lab after. html = before @ lab @ after \<and> ci_eq lab label)"

definition opens_at :: "string \<Rightarrow> string \<Rightarrow> string \<Rightarrow> bool" where
  \<comment> \<open>\<open>t\<close> starts with the label, the end of the label's cell and the opening tag of
      the next cell, which may carry attributes; \<open>u\<close> is the text after that tag\<close>
  "opens_at label t u \<longleftrightarrow>
     (\<exists>lab ws1 c1 ws2 opn attrs.
        t = lab @ ws1 @ c1 @ ws2 @ opn @ attrs @ CHR ''>'' # u
        \<and> ci_eq lab label \<and> list_all is_space ws1 \<and> ci_eq c1 ''</td>''
        \<and> list_all is_space ws2 \<and> ci_eq opn ''<td'' \<and> CHR ''>'' \<notin> set attrs)"

definition value_container_at :: "string \<Rightarrow> string \<Rightarrow> string \<Rightarrow> string \<Rightarrow> bool" where
  \<comment> \<open>\<open>t\<close> starts with the label followed by a value container with the contents
      \<open>content\<close>; \<open>post\<close> is the text after the container\<close>
  "value_container_at label t content post \<longleftrightarrow>
     (\<exists>c2. opens_at label t (content @ c2 @ post) \<and> ci_eq c2 ''</td>'')"

definition starts_with :: "(string \<Rightarrow> bool) \<Rightarrow> string \<Rightarrow> bool" where
  \<comment> \<open>the text begins with a text that \<open>closing\<close> holds of\<close>
  "starts_with closing s \<longleftrightarrow> (\<exists>c post. s = c @ post \<and> closing c)"

definition ends_first :: "(string \<Rightarrow> bool) \<Rightarrow> string \<Rightarrow> string \<Rightarrow> string \<Rightarrow> bool" where
  \<comment> \<open>\<open>u\<close> is \<open>content\<close>, a closing tag and \<open>post\<close>, and that closing tag is the first
      one in \<open>u\<close>: none starts inside \<open>content\<close>\<close>
  "ends_first closing u content post \<longleftrightarrow>
     (\<exists>c. u = content @ c @ post \<and> closing c
        \<and> (\<forall>n < length content. \<not> starts_with closing (drop n u)))"

definition container_at :: "string \<Rightarrow> string \<Rightarrow> string \<Rightarrow> string \<Rightarrow> bool" where
  \<comment> \<open>\<open>t\<close> starts with the label followed by a value container; the container ends at
      the first closing tag after its opening tag, \<open>content\<close> is the text between the
      two and \<open>post\<close> the text after the container\<close>
  "container_at label t content post \<longleftrightarrow>
     (\<exists>u. opens_at label t u \<and> ends_first (\<lambda>c. ci_eq c ''</td>'') u content post)"

definition section_at :: "string \<Rightarrow> string \<Rightarrow> string \<Rightarrow> string \<Rightarrow> bool" where
  \<comment> \<open>\<open>t\<close> starts with the title, the end of the heading and a table, which runs from
      \<open><table\<close> to the first \<open></table>\<close> after it; \<open>post\<close> is the text after the table\<close>
  "section_at title t table post \<longleftrightarrow>
     (\<exists>ti ws1 h ws2 opn mid c.
        t = ti @ ws1 @ h @ ws2 @ table @ post \<and> table = opn @ mid @ c
        \<and> ci_eq ti title \<and> list_all is_space ws1 \<and> ci_eq h ''</h2>''
        \<and> list_all is_space ws2 \<and> ci_eq opn ''<table'' \<and> ci_eq c ''</table>''
        \<and> (\<forall>n < length mid.
              \<not> starts_with (\<lambda>c. ci_eq c ''</table>'') (drop n (mid @ c @ post))))"

definition row_at :: "string \<Rightarrow> string \<Rightarrow> string \<Rightarrow> bool" where
  \<comment> \<open>\<open>t\<close> starts with a row: \<open><tr>\<close>, the text \<open>content\<close>, and the first \<open></tr>\<close>
      after the opening tag\<close>
  "row_at t content post \<longleftrightarrow>
     (\<exists>opn u. t = opn @ u \<and> ci_eq opn ''<tr>''
        \<and> ends_first (\<lambda>c. ci_eq c ''</tr>'') u content post)"

definition cell_at :: "string \<Rightarrow> string \<Rightarrow> string \<Rightarrow> bool" where
  \<comment> \<open>\<open>t\<close> starts with a cell: an opening tag \<open><td\<close> or \<open><th\<close>, which may carry
      attributes, the text \<open>content\<close>, and the first \<open></td>\<close> or \<open></th>\<close> after the
      opening tag\<close>
  "cell_at t content post \<longleftrightarrow>
     (\<exists>opn attrs u.
        t = opn @ attrs @ CHR ''>'' # u
        \<and> (ci_eq opn ''<td'' \<or> ci_eq opn ''<th'') \<and> CHR ''>'' \<notin> set attrs
        \<and> ends_first (\<lambda>c. ci_eq c ''</td>'' \<or> ci_eq c ''</th>'') u content post)"

definition nowhere :: "(string \<Rightarrow> 'a \<Rightarrow> string \<Rightarrow> bool) \<Rightarrow> string \<Rightarrow> bool" where
  \<comment> \<open>no place of the text \<open>s\<close> starts with what \<open>P\<close> describes\<close>
  "nowhere P s \<longleftrightarrow> (\<forall>n \<le> length s. \<not> (\<exists>x post. P (drop n s) x post))"

definition first_at :: "(string \<Rightarrow> 'a \<Rightarrow> string \<Rightarrow> bool) \<Rightarrow> string \<Rightarrow> 'a \<Rightarrow> string \<Rightarrow> bool" where
  \<comment> \<open>\<open>x\<close> is what \<open>P\<close> describes at the first place of \<open>s\<close> that starts with it, and
      \<open>post\<close> is the text after it\<close>
  "first_at P s x post \<longleftrightarrow>
     (\<exists>before t. s = before @ t \<and> P t x post
        \<and> (\<forall>n < length before. \<not> (\<exists>x' post'. P (drop n s) x' post')))"

fun scan :: "(string \<Rightarrow> 'a \<Rightarrow> string \<Rightarrow> bool) \<Rightarrow> string \<Rightarrow> 'a list \<Rightarrow> bool" where
  \<comment> \<open>\<open>xs\<close> is what \<open>P\<close> describes in \<open>s\<close> from left to right: the first one, then the
      first one in the text after it, and so on until none is left\<close>
  "scan P s [] \<longleftrightarrow> nowhere P s"
| "scan P s (x # xs) \<longleftrightarrow> (\<exists>post. first_at P s x post \<and> scan P post xs)"

definition decimal_value :: "string \<Rightarrow> int" where
  \<comment> \<open>the number that a sequence of digits denotes in decimal: the digit at place
      \<open>i\<close> from the right counts \<open>10 ^ i\<close> times its value\<close>
  "decimal_value ds =
     sum_list (map (\<lambda>(d, i). digit_value d * 10 ^ i) (zip (rev ds) [0 ..< length ds]))"

definition numeric_coercion :: "string option \<Rightarrow> int option" where
  \<comment> \<open>Numeric Coercion in the words of the specification\<close>
  "numeric_coercion v =
     (case v of
        None \<Rightarrow> None
      | Some s \<Rightarrow>
          if s = [] then None
          else if filter is_digit s = [] then None
          else Some (decimal_value (filter is_digit s)))"

definition too_many_digits :: "string option \<Rightarrow> bool" where
  \<comment> \<open>the text holds more than 4300 digits\<close>
  "too_many_digits v = (case v of None \<Rightarrow> False | Some s \<Rightarrow> 4300 < length (filter is_digit s))"

function nat_digits :: "nat \<Rightarrow> string" where
  "nat_digits n =
     (if n < 10 then [char_of (48 + n)]
      else nat_digits (n div 10) @ [char_of (48 + n mod 10)])"
  by pat_completeness auto
termination
  by (relation "measure id") auto

declare nat_digits.simps [simp del]

definition decimal_rendering :: "int \<Rightarrow> string" where
  \<comment> \<open>the decimal rendering of an integer\<close>
  "decimal_rendering n =
     (if n < 0 then CHR ''-'' # nat_digits (nat (- n)) else nat_digits (nat n))"

definition discarded :: "string list \<Rightarrow> bool" where
  \<comment> \<open>a row of cells that the History Table Parser drops\<close>
  "discarded cells \<longleftrightarrow> length cells < 3 \<or> ci_eq (cells ! 0) ''period''"

definition entry_of :: "string list \<Rightarrow> CapacityHistoryEntry" where
  \<comment> \<open>the entry of a row that is kept\<close>
  "entry_of cells =
     \<lparr> date = cells ! 0,
       entry_full_charge_capacity_mwh = numeric_coercion (Some (cells ! 1)),
       entry_design_capacity_mwh = numeric_coercion (Some (cells ! 2)) \<rparr>"

definition history_entries :: "string list list \<Rightarrow> error + CapacityHistoryEntry list" where
  \<comment> \<open>the result of the History Table Parser on a table whose rows have the cells
      \<open>cellss\<close>: the entries of the rows that are kept, in order, unless a capacity cell
      of such a row holds more than 4300 digits\<close>
  "history_entries cellss =
     (let kept = filter (\<lambda>cells. \<not> discarded cells) cellss
      in if list_ex (\<lambda>cells. too_many_digits (Some (cells ! 1))
                              \<or> too_many_digits (Some (cells ! 2))) kept
         then Inl ValueError
         else Inr (map entry_of kept))"

subsection \<open>Health Scorer\<close>

definition quotient_too_large :: "BatteryInfo \<Rightarrow> bool" where
  \<comment> \<open>both capacities are present and not zero, and their quotient, rounded to a float,
      is \<open>2 ^ 1024\<close> or more: no float holds it\<close>
  "quotient_too_large b \<longleftrightarrow>
     truthy (design_capacity_mwh b) \<and> truthy (full_charge_capacity_mwh b)
     \<and> 2 ^ 1024 \<le> \<bar>round_double (of_int (the (full_charge_capacity_mwh b))
                                   / of_int (the (design_capacity_mwh b)))\<bar>"

definition life_band :: "pyfloat \<Rightarrow> string" where
  \<comment> \<open>the band of a health percentage: the thresholds are tried from the top, and each
      is inclusive\<close>
  "life_band x =
     (if float_ge_int x 85 then ''18-24 months''
      else if float_ge_int x 70 then ''12-18 months''
      else if float_ge_int x 60 then ''6-12 months''
      else ''0-6 months'')"

definition penalty_of :: "int option \<Rightarrow> int" where
  \<comment> \<open>the cycle penalty of a cycle count, with floor division\<close>
  "penalty_of c =
     (case c of
        None \<Rightarrow> 0
      | Some n \<Rightarrow> if n \<le> 500 then 0 else min 15 ((n - 500) div 50))"

section \<open>The float model\<close>

lemma pow2_powi: "pow2 e = 2 powi e"
  by (simp add: pow2_def power_int_def inverse_eq_divide power_one_over)

lemma pow2_pos: "0 < pow2 e"
  by (simp add: pow2_powi)

lemma pow2_mono: "a \<le> b \<Longrightarrow> pow2 a \<le> pow2 b"
  by (simp add: pow2_powi power_int_increasing)

lemma pow2_strict_mono: "a < b \<Longrightarrow> pow2 a < pow2 b"
  by (simp add: pow2_powi power_int_strict_increasing)

lemma pow2_less_iff: "pow2 a < pow2 b \<longleftrightarrow> a < b"
  using pow2_mono [of b a] pow2_strict_mono [of a b] by (cases "a < b") auto

lemma pow2_le_iff: "pow2 a \<le> pow2 b \<longleftrightarrow> a \<le> b"
  using pow2_mono [of a b] pow2_strict_mono [of b a] by (cases "a \<le> b") auto

lemma pow2_add: "pow2 (a + b) = pow2 a * pow2 b"
  by (simp add: pow2_powi power_int_add)

lemma pow2_diff: "pow2 (a - b) = pow2 a / pow2 b"
  by (simp add: pow2_powi power_int_diff)

lemma pow2_nat: "pow2 (int n) = 2 ^ n"
  by (simp add: pow2_def)

lemma ilog2_bounds:
  "1 \<le> n \<Longrightarrow> 0 \<le> ilog2 n \<and> 2 ^ nat (ilog2 n) \<le> n \<and> n < 2 * 2 ^ nat (ilog2 n)"
proof (induction n rule: ilog2.induct)
  case (1 n)
  show ?case
  proof (cases "n < 2")
    case True
    with "1.prems" have "n = 1" by simp
    then show ?thesis by (simp add: ilog2.simps)
  next
    case False
    then have m: "1 \<le> n div 2" by simp
    from "1.IH" [OF False m]
    have ih: "0 \<le> ilog2 (n div 2)" "2 ^ nat (ilog2 (n div 2)) \<le> n div 2"
      "n div 2 < 2 * 2 ^ nat (ilog2 (n div 2))" by simp_all
    have eq: "ilog2 n = 1 + ilog2 (n div 2)" using False by (simp add: ilog2.simps [of n])
    have nat_eq: "nat (ilog2 n) = Suc (nat (ilog2 (n div 2)))"
      using ih(1) eq by simp
    show ?thesis
      using ih eq unfolding nat_eq by simp linarith
  qed
qed

lemma ilog2_pow2_bounds:
  assumes "1 \<le> n"
  shows "pow2 (ilog2 n) \<le> of_int n" "of_int n < pow2 (ilog2 n + 1)"
proof -
  from ilog2_bounds [OF assms]
  have a: "0 \<le> ilog2 n" "2 ^ nat (ilog2 n) \<le> n" "n < 2 * 2 ^ nat (ilog2 n)" by simp_all
  have "(of_int (2 ^ nat (ilog2 n)) :: rat) \<le> of_int n" using a(2) by (simp only: of_int_le_iff)
  then show "pow2 (ilog2 n) \<le> of_int n" using a(1) by (simp add: pow2_def)
  have "(of_int n :: rat) < of_int (2 * 2 ^ nat (ilog2 n))" using a(3) by (simp only: of_int_less_iff)
  then show "of_int n < pow2 (ilog2 n + 1)" using a(1) by (simp add: pow2_def nat_add_distrib)
qed

lemma floor_log2_bounds:
  assumes "0 < x"
  shows "pow2 (floor_log2 x) \<le> x \<and> x < pow2 (floor_log2 x + 1)"
proof -
  obtain p q where pq: "quotient_of x = (p, q)" by (cases "quotient_of x")
  have q: "0 < q" using pq quotient_of_denom_pos by blast
  have x: "x = of_int p / of_int q" using pq by (rule quotient_of_div)
  have p: "0 < p" using assms q x by (simp add: zero_less_divide_iff)
  let ?e = "ilog2 p - ilog2 q"
  from ilog2_pow2_bounds [of p] p
  have pb: "pow2 (ilog2 p) \<le> of_int p" "of_int p < pow2 (ilog2 p + 1)" by simp_all
  from ilog2_pow2_bounds [of q] q
  have qb: "pow2 (ilog2 q) \<le> of_int q" "of_int q < pow2 (ilog2 q + 1)" by simp_all
  have qpos: "(0::rat) < of_int q" using q by simp
  have up: "x < pow2 (?e + 1)"
  proof -
    have "x < pow2 (ilog2 p + 1) / of_int q"
      unfolding x using pb(2) qpos by (simp add: divide_strict_right_mono)
    also have "\<dots> \<le> pow2 (ilog2 p + 1) / pow2 (ilog2 q)"
      using qb(1) pow2_pos [of "ilog2 q"] pow2_pos [of "ilog2 p + 1"]
      by (simp add: frac_le)
    also have "\<dots> = pow2 (?e + 1)"
      using pow2_diff [of "ilog2 p + 1" "ilog2 q"] by (simp add: algebra_simps)
    finally show ?thesis .
  qed
  have lo: "pow2 (?e - 1) \<le> x"
  proof -
    have "pow2 (?e - 1) = pow2 (ilog2 p) / pow2 (ilog2 q + 1)"
      using pow2_diff [of "ilog2 p" "ilog2 q + 1"] by (simp add: algebra_simps)
    also have "\<dots> \<le> of_int p / pow2 (ilog2 q + 1)"
      using pb(1) pow2_pos [of "ilog2 q + 1"] by (simp add: divide_right_mono)
    also have "\<dots> \<le> of_int p / of_int q"
      using qb(2) qpos p by (simp add: frac_le)
    finally show ?thesis unfolding x .
  qed
  show ?thesis
    using up lo by (simp add: floor_log2_def pq Let_def)
qed

lemma floor_log2_unique:
  assumes "pow2 e \<le> x" "x < pow2 (e + 1)"
  shows "floor_log2 x = e"
proof -
  have "0 < x" using assms(1) pow2_pos [of e] by simp
  from floor_log2_bounds [OF this]
  have b: "pow2 (floor_log2 x) \<le> x" "x < pow2 (floor_log2 x + 1)" by simp_all
  have "pow2 e < pow2 (floor_log2 x + 1)" using assms(1) b(2) by simp
  then have 1: "e < floor_log2 x + 1" by (simp add: pow2_less_iff)
  have "pow2 (floor_log2 x) < pow2 (e + 1)" using assms(2) b(1) by simp
  then have 2: "floor_log2 x < e + 1" by (simp add: pow2_less_iff)
  from 1 2 show ?thesis by simp
qed

lemma pow2_1024: "pow2 1024 = 2 ^ 1024"
  using pow2_nat [of 1024] by simp

lemma overflows_iff: "overflows r \<longleftrightarrow> 2 ^ 1024 \<le> \<bar>r\<bar>"
proof (cases "r = 0")
  case True
  then show ?thesis by (simp add: overflows_def)
next
  case False
  then have "0 < \<bar>r\<bar>" by simp
  from floor_log2_bounds [OF this]
  have b: "pow2 (floor_log2 \<bar>r\<bar>) \<le> \<bar>r\<bar>" "\<bar>r\<bar> < pow2 (floor_log2 \<bar>r\<bar> + 1)" by simp_all
  show ?thesis
  proof (cases "1023 < floor_log2 \<bar>r\<bar>")
    case True
    then have "pow2 1024 \<le> pow2 (floor_log2 \<bar>r\<bar>)" by (simp add: pow2_le_iff)
    with b(1) have "pow2 1024 \<le> \<bar>r\<bar>" by simp
    with True False show ?thesis by (simp add: overflows_def pow2_1024)
  next
    case F: False
    then have "pow2 (floor_log2 \<bar>r\<bar> + 1) \<le> pow2 1024" by (simp add: pow2_le_iff)
    with b(2) have "\<bar>r\<bar> < pow2 1024" by simp
    with F show ?thesis by (simp add: overflows_def pow2_1024)
  qed
qed

lemma round_half_even_ge_floor: "\<lfloor>x\<rfloor> \<le> round_half_even x"
  by (simp add: round_half_even_def Let_def)

lemma round_half_even_mono_int:
  assumes "of_int k \<le> x"
  shows "k \<le> round_half_even x"
proof -
  have "k \<le> \<lfloor>x\<rfloor>" using assms by (simp add: le_floor_iff)
  then show ?thesis using round_half_even_ge_floor [of x] by (rule order_trans)
qed

lemma round_double_large:
  assumes "2 ^ 1024 \<le> x"
  shows "2 ^ 1024 \<le> round_double x"
proof -
  have xpos: "0 < x" using assms by (simp add: less_le_trans [of 0 "2 ^ 1024"])
  let ?f = "floor_log2 \<bar>x\<bar>"
  have ax: "\<bar>x\<bar> = x" using xpos by simp
  from floor_log2_bounds [of x] xpos
  have b: "pow2 (floor_log2 x) \<le> x" "x < pow2 (floor_log2 x + 1)" by simp_all
  have "pow2 1024 < pow2 (floor_log2 x + 1)" using assms b(2) by (simp add: pow2_1024)
  then have f: "1024 \<le> floor_log2 x" by (simp add: pow2_less_iff)
  let ?u = "pow2 (floor_log2 x - 52)"
  have u: "0 < ?u" by (rule pow2_pos)
  have rd: "round_double x = of_int (round_half_even (x / ?u)) * ?u"
    using xpos f by (simp add: round_double_def ax Let_def max_def)
  have "pow2 52 = pow2 (floor_log2 x) / ?u"
    using pow2_diff [of "floor_log2 x" "floor_log2 x - 52"] by simp
  also have "\<dots> \<le> x / ?u" using b(1) u by (simp add: divide_right_mono)
  finally have "of_int (2 ^ 52) \<le> x / ?u" using pow2_nat [of 52] by simp
  then have "2 ^ 52 \<le> round_half_even (x / ?u)" by (rule round_half_even_mono_int)
  then have "(of_int (2 ^ 52) :: rat) \<le> of_int (round_half_even (x / ?u))"
    by (simp only: of_int_le_iff)
  then have "pow2 52 * ?u \<le> of_int (round_half_even (x / ?u)) * ?u"
    using u pow2_nat [of 52] by (simp add: mult_right_mono)
  moreover have "pow2 52 * ?u = pow2 (floor_log2 x)"
    using pow2_add [of 52 "floor_log2 x - 52"] by simp
  moreover have "pow2 1024 \<le> pow2 (floor_log2 x)" using f by (simp add: pow2_le_iff)
  ultimately show ?thesis unfolding rd by (simp add: pow2_1024)
qed

lemma truediv_overflow:
  assumes "b \<noteq> 0" "2 ^ 1024 \<le> (of_int a / of_int b :: rat)"
  shows "truediv a b = Inl OverflowError"
proof -
  let ?r = "round_double (of_int a / of_int b)"
  have "2 ^ 1024 \<le> ?r" using assms(2) by (rule round_double_large)
  then have "overflows ?r" by (simp add: overflows_iff)
  then show ?thesis using assms(1) by (simp add: truediv_def to_double_def Let_def)
qed


section \<open>Health Scorer: properties\<close>

lemma truthy_iff: "truthy v \<longleftrightarrow> (\<exists>n. v = Some n \<and> n \<noteq> 0)"
  by (cases v) (simp_all add: truthy_def)

lemma compute_health_absent:
  assumes "\<not> truthy (design_capacity_mwh b) \<or> \<not> truthy (full_charge_capacity_mwh b)"
  shows "\<exists>h. compute_health b = Inr h \<and> health_percentage h = None
           \<and> degradation_percentage h = None \<and> estimated_remaining_life h = ''unknown''"
  using assms by (auto simp: compute_health_def Let_def)

lemma compute_health_present:
  assumes "design_capacity_mwh b = Some d" "d \<noteq> 0"
    and "full_charge_capacity_mwh b = Some f" "f \<noteq> 0"
    and "truediv f d = Inr q"
  shows "\<exists>h. compute_health b = Inr h
           \<and> health_percentage h = Some (py_round2 (fmul q (Finite 100)))
           \<and> degradation_percentage h =
               Some (py_round2 (fsub (Finite 100) (py_round2 (fmul q (Finite 100)))))"
  using assms by (simp add: compute_health_def Let_def truthy_def)

lemma compute_health_raises:
  assumes "design_capacity_mwh b = Some d" "d \<noteq> 0"
    and "full_charge_capacity_mwh b = Some f" "f \<noteq> 0"
    and "truediv f d = Inl e"
  shows "compute_health b = Inl e"
  using assms by (simp add: compute_health_def Let_def truthy_def)

lemma compute_health_InrD:
  assumes "compute_health b = Inr h"
  shows "degradation_percentage h =
           (case health_percentage h of
              None \<Rightarrow> None
            | Some x \<Rightarrow> Some (py_round2 (fsub (Finite 100) x)))"
    and "cycle_penalty h =
           (if truthy (cycle_count b) \<and> 500 < the (cycle_count b)
            then min 15 ((the (cycle_count b) - 500) div 50) else 0)"
    and "estimated_remaining_life h =
           (case health_percentage h of
              None \<Rightarrow> ''unknown''
            | Some x \<Rightarrow>
                if float_ge_int x 85 then ''18-24 months''
                else if float_ge_int x 70 then ''12-18 months''
                else if float_ge_int x 60 then ''6-12 months''
                else ''0-6 months'')"
proof -
  define X where "X =
    (if \<not> truthy (design_capacity_mwh b) \<or> \<not> truthy (full_charge_capacity_mwh b)
     then Inr None
     else case truediv (the (full_charge_capacity_mwh b)) (the (design_capacity_mwh b)) of
            Inl e \<Rightarrow> Inl e
          | Inr q \<Rightarrow> Inr (Some (py_round2 (fmul q (Finite 100)))))"
  have "compute_health b = (case X of Inl e \<Rightarrow> Inl e | Inr hp \<Rightarrow> Inr
     \<lparr> health_percentage = hp,
       degradation_percentage =
         (case hp of None \<Rightarrow> None | Some x \<Rightarrow> Some (py_round2 (fsub (Finite 100) x))),
       cycle_penalty =
         (if truthy (cycle_count b) \<and> 500 < the (cycle_count b)
          then min 15 ((the (cycle_count b) - 500) div 50) else 0),
       estimated_remaining_life =
         (case hp of
            None \<Rightarrow> ''unknown''
          | Some x \<Rightarrow>
              if float_ge_int x 85 then ''18-24 months''
              else if float_ge_int x 70 then ''12-18 months''
              else if float_ge_int x 60 then ''6-12 months''
              else ''0-6 months'') \<rparr>)"
    unfolding compute_health_def X_def Let_def ..
  with assms obtain hp where h: "h =
     \<lparr> health_percentage = hp,
       degradation_percentage =
         (case hp of None \<Rightarrow> None | Some x \<Rightarrow> Some (py_round2 (fsub (Finite 100) x))),
       cycle_penalty =
         (if truthy (cycle_count b) \<and> 500 < the (cycle_count b)
          then min 15 ((the (cycle_count b) - 500) div 50) else 0),
       estimated_remaining_life =
         (case hp of
            None \<Rightarrow> ''unknown''
          | Some x \<Rightarrow>
              if float_ge_int x 85 then ''18-24 months''
              else if float_ge_int x 70 then ''12-18 months''
              else if float_ge_int x 60 then ''6-12 months''
              else ''0-6 months'') \<rparr>"
    by (cases X) auto
  show "degradation_percentage h =
           (case health_percentage h of
              None \<Rightarrow> None
            | Some x \<Rightarrow> Some (py_round2 (fsub (Finite 100) x)))"
    by (simp add: h)
  show "cycle_penalty h =
           (if truthy (cycle_count b) \<and> 500 < the (cycle_count b)
            then min 15 ((the (cycle_count b) - 500) div 50) else 0)"
    by (simp add: h)
  show "estimated_remaining_life h =
           (case health_percentage h of
              None \<Rightarrow> ''unknown''
            | Some x \<Rightarrow>
                if float_ge_int x 85 then ''18-24 months''
                else if float_ge_int x 70 then ''12-18 months''
                else if float_ge_int x 60 then ''6-12 months''
                else ''0-6 months'')"
    by (simp add: h)
qed

lemma truediv_1700_2000:
  "truediv 1700 2000 = Inr (Finite (7656119366529843 / 9007199254740992))"
  by code_simp

lemma health_1700_2000:
  "py_round2 (fmul (Finite (7656119366529843 / 9007199254740992)) (Finite 100)) = Finite 85"
  by code_simp

lemma degradation_85: "py_round2 (fsub (Finite 100) (Finite 85)) = Finite 15"
  by code_simp

lemma truediv_699_1000:
  "truediv 699 1000 = Inr (Finite (round_double (699 / 1000)))"
  by code_simp

lemma health_699_1000:
  "py_round2 (fmul (Finite (round_double (699 / 1000))) (Finite 100)) = Finite (round_double (699 / 10))"
  by code_simp

lemma round_double_699_10: "round_double (699 / 10) = 2459387609009357 / 35184372088832"
  by code_simp

lemma health_699_below_70:
  "\<not> float_ge_int (Finite (round_double (699 / 10))) 70"
  "float_ge_int (Finite (round_double (699 / 10))) 60"
  by (simp_all add: round_double_699_10)

text \<open>
  Claim C1, as amended. When the design capacity or the full-charge capacity is absent
  or zero, the scorer returns an assessment whose health and degradation percentages are
  both absent. When both are present and non-zero and the true division
  \<open>full / design\<close> returns a float \<open>q\<close>, the scorer returns an assessment with
  health percentage \<open>round(q * 100, 2)\<close> and degradation percentage
  \<open>round(100 - health, 2)\<close>. When that division raises, the scorer raises the same
  error and returns nothing. In every assessment returned, the degradation percentage is
  present exactly when the health percentage is.
\<close>

theorem compute_health_percentages:
  "(\<not> truthy (design_capacity_mwh b) \<or> \<not> truthy (full_charge_capacity_mwh b) \<longrightarrow>
      (\<exists>h. compute_health b = Inr h \<and> health_percentage h = None
             \<and> degradation_percentage h = None))
   \<and> (\<forall>d f q. design_capacity_mwh b = Some d \<and> d \<noteq> 0
           \<and> full_charge_capacity_mwh b = Some f \<and> f \<noteq> 0
           \<and> truediv f d = Inr q \<longrightarrow>
        (\<exists>h. compute_health b = Inr h
           \<and> health_percentage h = Some (py_round2 (fmul q (Finite 100)))
           \<and> degradation_percentage h =
               Some (py_round2 (fsub (Finite 100) (py_round2 (fmul q (Finite 100)))))))
   \<and> (\<forall>d f e. design_capacity_mwh b = Some d \<and> d \<noteq> 0
           \<and> full_charge_capacity_mwh b = Some f \<and> f \<noteq> 0
           \<and> truediv f d = Inl e \<longrightarrow> compute_health b = Inl e)
   \<and> (\<forall>h. compute_health b = Inr h \<longrightarrow>
        (degradation_percentage h = None \<longleftrightarrow> health_percentage h = None))"
proof (intro conjI allI impI)
  assume "\<not> truthy (design_capacity_mwh b) \<or> \<not> truthy (full_charge_capacity_mwh b)"
  from compute_health_absent [OF this]
  show "\<exists>h. compute_health b = Inr h \<and> health_percentage h = None
             \<and> degradation_percentage h = None"
    by blast
next
  fix d f q
  assume "design_capacity_mwh b = Some d \<and> d \<noteq> 0
           \<and> full_charge_capacity_mwh b = Some f \<and> f \<noteq> 0
           \<and> truediv f d = Inr q"
  then show "\<exists>h. compute_health b = Inr h
           \<and> health_percentage h = Some (py_round2 (fmul q (Finite 100)))
           \<and> degradation_percentage h =
               Some (py_round2 (fsub (Finite 100) (py_round2 (fmul q (Finite 100)))))"
    using compute_health_present [of b d f q] by blast
next
  fix d f e
  assume "design_capacity_mwh b = Some d \<and> d \<noteq> 0
           \<and> full_charge_capacity_mwh b = Some f \<and> f \<noteq> 0
           \<and> truediv f d = Inl e"
  then show "compute_health b = Inl e"
    using compute_health_raises [of b d f e] by blast
next
  fix h
  assume "compute_health b = Inr h"
  from compute_health_InrD(1) [OF this]
  show "degradation_percentage h = None \<longleftrightarrow> health_percentage h = None"
    by (cases "health_percentage h") simp_all
qed

theorem compute_health_percentages_witness:
  "(\<exists>h. compute_health
           \<lparr> name = None, manufacturer = None, chemistry = None,
             design_capacity_mwh = None, full_charge_capacity_mwh = Some 1700,
             cycle_count = None \<rparr> = Inr h
        \<and> health_percentage h = None \<and> degradation_percentage h = None)
   \<and> (\<exists>h. compute_health
           \<lparr> name = None, manufacturer = None, chemistry = None,
             design_capacity_mwh = Some 2000, full_charge_capacity_mwh = Some 1700,
             cycle_count = None \<rparr> = Inr h
        \<and> health_percentage h = Some (Finite 85)
        \<and> degradation_percentage h = Some (Finite 15)
        \<and> (degradation_percentage h = None) = (health_percentage h = None))
   \<and> truediv (10 ^ 309) 1 = Inl OverflowError
   \<and> compute_health
           \<lparr> name = None, manufacturer = None, chemistry = None,
             design_capacity_mwh = Some 1, full_charge_capacity_mwh = Some (10 ^ 309),
             cycle_count = None \<rparr> = Inl OverflowError"
proof (intro conjI)
  let ?b = "\<lparr> name = None, manufacturer = None, chemistry = None,
             design_capacity_mwh = None, full_charge_capacity_mwh = Some 1700,
             cycle_count = None \<rparr>"
  show "\<exists>h. compute_health ?b = Inr h
        \<and> health_percentage h = None \<and> degradation_percentage h = None"
    using compute_health_percentages [of ?b] by (simp add: truthy_def)
next
  let ?b = "\<lparr> name = None, manufacturer = None, chemistry = None,
             design_capacity_mwh = Some 2000, full_charge_capacity_mwh = Some 1700,
             cycle_count = None \<rparr>"
  from compute_health_percentages [of ?b]
  have "\<exists>h. compute_health ?b = Inr h
           \<and> health_percentage h = Some (py_round2 (fmul (Finite (7656119366529843 / 9007199254740992)) (Finite 100)))
           \<and> degradation_percentage h =
               Some (py_round2 (fsub (Finite 100) (py_round2 (fmul (Finite (7656119366529843 / 9007199254740992)) (Finite 100)))))"
    using truediv_1700_2000 by simp
  then show "\<exists>h. compute_health ?b = Inr h
        \<and> health_percentage h = Some (Finite 85)
        \<and> degradation_percentage h = Some (Finite 15)
        \<and> (degradation_percentage h = None) = (health_percentage h = None)"
    unfolding health_1700_2000 degradation_85 by auto
next
  show ov: "truediv (10 ^ 309) 1 = Inl OverflowError"
    by (rule truediv_overflow) simp_all
  let ?b = "\<lparr> name = None, manufacturer = None, chemistry = None,
             design_capacity_mwh = Some 1, full_charge_capacity_mwh = Some (10 ^ 309),
             cycle_count = None \<rparr>"
  show "compute_health ?b = Inl OverflowError"
    using compute_health_percentages [of ?b] ov by simp
qed

text \<open>
  Claim C1 as stated speaks of every BatteryInfo. With design capacity 1 and full-charge
  capacity \<open>10 ^ 309\<close> the quotient is too large for a float: the division raises
  OverflowError and the scorer returns no assessment.
\<close>

theorem compute_health_overflow_counterexample:
  "compute_health
     \<lparr> name = None, manufacturer = None, chemistry = None,
       design_capacity_mwh = Some 1, full_charge_capacity_mwh = Some (10 ^ 309),
       cycle_count = None \<rparr> = Inl OverflowError"
proof -
  have "truediv (10 ^ 309) 1 = Inl OverflowError"
    by (rule truediv_overflow) simp_all
  then show ?thesis
    by (simp add: compute_health_raises)
qed

subsection \<open>Remaining life and cycle penalty\<close>

lemma truediv_cases:
  assumes "b \<noteq> 0"
  shows "truediv a b =
           (if 2 ^ 1024 \<le> \<bar>round_double (of_int a / of_int b)\<bar> then Inl OverflowError
            else Inr (Finite (round_double (of_int a / of_int b))))"
  using assms by (simp add: truediv_def to_double_def Let_def overflows_iff)

lemma quotient_too_large_iff:
  "quotient_too_large b \<longleftrightarrow>
     (\<exists>d f. design_capacity_mwh b = Some d \<and> d \<noteq> 0
        \<and> full_charge_capacity_mwh b = Some f \<and> f \<noteq> 0
        \<and> truediv f d = Inl OverflowError)"
proof
  assume q: "quotient_too_large b"
  then obtain d f where df: "design_capacity_mwh b = Some d" "d \<noteq> 0"
    "full_charge_capacity_mwh b = Some f" "f \<noteq> 0"
    unfolding quotient_too_large_def truthy_iff by blast
  with q have "2 ^ 1024 \<le> \<bar>round_double (of_int f / of_int d)\<bar>"
    by (simp add: quotient_too_large_def)
  with df(2) have "truediv f d = Inl OverflowError" by (simp add: truediv_cases)
  with df show "\<exists>d f. design_capacity_mwh b = Some d \<and> d \<noteq> 0
        \<and> full_charge_capacity_mwh b = Some f \<and> f \<noteq> 0
        \<and> truediv f d = Inl OverflowError" by blast
next
  assume "\<exists>d f. design_capacity_mwh b = Some d \<and> d \<noteq> 0
        \<and> full_charge_capacity_mwh b = Some f \<and> f \<noteq> 0
        \<and> truediv f d = Inl OverflowError"
  then obtain d f where df: "design_capacity_mwh b = Some d" "d \<noteq> 0"
    "full_charge_capacity_mwh b = Some f" "f \<noteq> 0" "truediv f d = Inl OverflowError"
    by blast
  from df(5) df(2) have "2 ^ 1024 \<le> \<bar>round_double (of_int f / of_int d)\<bar>"
    by (simp add: truediv_cases split: if_splits)
  with df show "quotient_too_large b"
    by (simp add: quotient_too_large_def truthy_def)
qed

lemma compute_health_too_large:
  assumes "quotient_too_large b"
  shows "compute_health b = Inl OverflowError"
proof -
  from assms obtain d f where "design_capacity_mwh b = Some d" "d \<noteq> 0"
    "full_charge_capacity_mwh b = Some f" "f \<noteq> 0" "truediv f d = Inl OverflowError"
    unfolding quotient_too_large_iff by blast
  then show ?thesis by (rule compute_health_raises)
qed

lemma compute_health_returns:
  assumes "\<not> quotient_too_large b"
  shows "\<exists>h. compute_health b = Inr h
           \<and> (health_percentage h = None \<longleftrightarrow>
                \<not> truthy (design_capacity_mwh b) \<or> \<not> truthy (full_charge_capacity_mwh b))"
proof (cases "\<not> truthy (design_capacity_mwh b) \<or> \<not> truthy (full_charge_capacity_mwh b)")
  case True
  from compute_health_absent [OF True] True show ?thesis by blast
next
  case False
  then obtain d f where df: "design_capacity_mwh b = Some d" "d \<noteq> 0"
    "full_charge_capacity_mwh b = Some f" "f \<noteq> 0"
    unfolding truthy_iff by blast
  with assms have "\<not> 2 ^ 1024 \<le> \<bar>round_double (of_int f / of_int d)\<bar>"
    by (simp add: quotient_too_large_def truthy_def)
  with df(2) have "truediv f d = Inr (Finite (round_double (of_int f / of_int d)))"
    by (simp add: truediv_cases)
  from compute_health_present [OF df this] False show ?thesis by auto
qed

lemma life_band_not_unknown: "life_band x \<noteq> ''unknown''"
  by (simp add: life_band_def)

lemma compute_health_life:
  assumes "compute_health b = Inr h"
  shows "estimated_remaining_life h =
           (case health_percentage h of None \<Rightarrow> ''unknown'' | Some x \<Rightarrow> life_band x)"
  using compute_health_InrD(3) [OF assms]
  by (cases "health_percentage h") (simp_all add: life_band_def)

lemma compute_health_penalty:
  assumes "compute_health b = Inr h"
  shows "cycle_penalty h = penalty_of (cycle_count b)"
  using compute_health_InrD(2) [OF assms]
  by (cases "cycle_count b") (auto simp: truthy_def penalty_of_def)

lemma penalty_of_bounds: "0 \<le> penalty_of c \<and> penalty_of c \<le> 15"
proof (cases c)
  case None
  then show ?thesis by (simp add: penalty_of_def)
next
  case (Some n)
  show ?thesis
  proof (cases "n \<le> 500")
    case True
    then show ?thesis using Some by (simp add: penalty_of_def)
  next
    case False
    then have "0 \<le> (n - 500) div 50" by simp
    then show ?thesis using Some False by (simp add: penalty_of_def)
  qed
qed

lemma truediv_overflow_2: "truediv (10 ^ 310) 2 = Inl OverflowError"
  by (rule truediv_overflow) simp_all

lemma truediv_overflow_1: "truediv (10 ^ 309) 1 = Inl OverflowError"
  by (rule truediv_overflow) simp_all

text \<open>
  Claim C2 as stated speaks of every BatteryInfo. With design capacity 2 and full-charge
  capacity \<open>10 ^ 310\<close> the scorer raises OverflowError: there is no assessment, and so
  no remaining-life estimate.
\<close>

theorem compute_health_remaining_life_counterexample:
  "compute_health
     \<lparr> name = Some ''BAT0'', manufacturer = None, chemistry = None,
       design_capacity_mwh = Some 2, full_charge_capacity_mwh = Some (10 ^ 310),
       cycle_count = Some 120 \<rparr> = Inl OverflowError"
  using truediv_overflow_2 by (simp add: compute_health_raises)

text \<open>
  Claim C2, as amended. Unless both capacities are present and not zero and their
  quotient is too large for a float, the scorer returns an assessment. In it the health
  percentage is absent exactly when a capacity is absent or zero, the remaining-life
  estimate is \<open>unknown\<close> exactly when the health percentage is absent, and otherwise
  the estimate is the band of the health percentage: the thresholds 85, 70 and 60, each
  inclusive, tried from the top. When the quotient is too large the scorer raises
  OverflowError and returns no assessment. Design capacity 2000 with full-charge
  capacity 1700 gives health 85.0 and the band 18-24 months; design capacity 1000 with
  full-charge capacity 699 gives health 69.9 (the float nearest to \<open>699 / 10\<close>) and the
  band 6-12 months.
\<close>

theorem compute_health_remaining_life:
  "(\<not> quotient_too_large b \<longrightarrow>
      (\<exists>h. compute_health b = Inr h
         \<and> (health_percentage h = None \<longleftrightarrow>
              \<not> truthy (design_capacity_mwh b) \<or> \<not> truthy (full_charge_capacity_mwh b))
         \<and> (estimated_remaining_life h = ''unknown'' \<longleftrightarrow> health_percentage h = None)
         \<and> (\<forall>x. health_percentage h = Some x \<longrightarrow>
               estimated_remaining_life h =
                 (if float_ge_int x 85 then ''18-24 months''
                  else if float_ge_int x 70 then ''12-18 months''
                  else if float_ge_int x 60 then ''6-12 months''
                  else ''0-6 months''))))
   \<and> (quotient_too_large b \<longrightarrow> compute_health b = Inl OverflowError)
   \<and> (design_capacity_mwh b = Some 2000 \<and> full_charge_capacity_mwh b = Some 1700 \<longrightarrow>
        (\<exists>h. compute_health b = Inr h \<and> health_percentage h = Some (Finite 85)
            \<and> estimated_remaining_life h = ''18-24 months''))
   \<and> (design_capacity_mwh b = Some 1000 \<and> full_charge_capacity_mwh b = Some 699 \<longrightarrow>
        (\<exists>h. compute_health b = Inr h
            \<and> health_percentage h = Some (Finite (round_double (699 / 10)))
            \<and> estimated_remaining_life h = ''6-12 months''))"
proof (intro conjI impI)
  assume "\<not> quotient_too_large b"
  from compute_health_returns [OF this] obtain h where
    h: "compute_health b = Inr h"
       "health_percentage h = None \<longleftrightarrow>
          \<not> truthy (design_capacity_mwh b) \<or> \<not> truthy (full_charge_capacity_mwh b)"
    by (elim exE conjE)
  note life = compute_health_life [OF h(1)]
  have u: "estimated_remaining_life h = ''unknown'' \<longleftrightarrow> health_percentage h = None"
    using life life_band_not_unknown by (cases "health_percentage h") simp_all
  have b: "\<forall>x. health_percentage h = Some x \<longrightarrow>
               estimated_remaining_life h =
                 (if float_ge_int x 85 then ''18-24 months''
                  else if float_ge_int x 70 then ''12-18 months''
                  else if float_ge_int x 60 then ''6-12 months''
                  else ''0-6 months'')"
    using life by (simp add: life_band_def)
  show "\<exists>h. compute_health b = Inr h
         \<and> (health_percentage h = None \<longleftrightarrow>
              \<not> truthy (design_capacity_mwh b) \<or> \<not> truthy (full_charge_capacity_mwh b))
         \<and> (estimated_remaining_life h = ''unknown'' \<longleftrightarrow> health_percentage h = None)
         \<and> (\<forall>x. health_percentage h = Some x \<longrightarrow>
               estimated_remaining_life h =
                 (if float_ge_int x 85 then ''18-24 months''
                  else if float_ge_int x 70 then ''12-18 months''
                  else if float_ge_int x 60 then ''6-12 months''
                  else ''0-6 months''))"
    by (intro exI [of _ h] conjI h u b)
next
  assume "quotient_too_large b"
  then show "compute_health b = Inl OverflowError" by (rule compute_health_too_large)
next
  assume a: "design_capacity_mwh b = Some 2000 \<and> full_charge_capacity_mwh b = Some 1700"
  from compute_health_present [of b 2000 1700, OF _ _ _ _ truediv_1700_2000] a
  obtain h where h: "compute_health b = Inr h"
    "health_percentage h = Some (Finite 85)"
    unfolding health_1700_2000 by auto
  from compute_health_life [OF h(1)] h(2)
  have "estimated_remaining_life h = ''18-24 months''" by (simp add: life_band_def)
  with h show "\<exists>h. compute_health b = Inr h \<and> health_percentage h = Some (Finite 85)
            \<and> estimated_remaining_life h = ''18-24 months''" by blast
next
  assume a: "design_capacity_mwh b = Some 1000 \<and> full_charge_capacity_mwh b = Some 699"
  from compute_health_present [of b 1000 699, OF _ _ _ _ truediv_699_1000] a
  obtain h where h: "compute_health b = Inr h"
    "health_percentage h = Some (Finite (round_double (699 / 10)))"
    unfolding health_699_1000 by auto
  have "\<not> float_ge_int (Finite (round_double (699 / 10))) 85"
    by (simp add: round_double_699_10)
  with compute_health_life [OF h(1)] h(2) health_699_below_70
  have "estimated_remaining_life h = ''6-12 months''" by (simp add: life_band_def)
  with h show "\<exists>h. compute_health b = Inr h
            \<and> health_percentage h = Some (Finite (round_double (699 / 10)))
            \<and> estimated_remaining_life h = ''6-12 months''" by blast
qed

lemma not_too_large_1700_2000:
  "design_capacity_mwh b = Some 2000 \<Longrightarrow> full_charge_capacity_mwh b = Some 1700
     \<Longrightarrow> \<not> quotient_too_large b"
  unfolding quotient_too_large_iff using truediv_1700_2000 by auto

lemma not_too_large_699_1000:
  "design_capacity_mwh b = Some 1000 \<Longrightarrow> full_charge_capacity_mwh b = Some 699
     \<Longrightarrow> \<not> quotient_too_large b"
  unfolding quotient_too_large_iff using truediv_699_1000 by auto

lemma not_too_large_absent:
  "design_capacity_mwh b = None \<or> design_capacity_mwh b = Some 0
     \<or> full_charge_capacity_mwh b = None \<or> full_charge_capacity_mwh b = Some 0
     \<Longrightarrow> \<not> quotient_too_large b"
  unfolding quotient_too_large_iff by auto

lemma too_large_example:
  "design_capacity_mwh b = Some 1 \<Longrightarrow> full_charge_capacity_mwh b = Some (10 ^ 309)
     \<Longrightarrow> quotient_too_large b"
  unfolding quotient_too_large_iff using truediv_overflow_1 by simp

theorem compute_health_remaining_life_witness:
  "(\<exists>h. compute_health
           \<lparr> name = None, manufacturer = None, chemistry = None,
             design_capacity_mwh = Some 2000, full_charge_capacity_mwh = None,
             cycle_count = Some 700 \<rparr> = Inr h
        \<and> health_percentage h = None
        \<and> estimated_remaining_life h = ''unknown'')
   \<and> (\<exists>h. compute_health
           \<lparr> name = None, manufacturer = None, chemistry = None,
             design_capacity_mwh = Some 0, full_charge_capacity_mwh = Some 1700,
             cycle_count = None \<rparr> = Inr h
        \<and> health_percentage h = None
        \<and> estimated_remaining_life h = ''unknown'')
   \<and> (\<exists>h. compute_health
           \<lparr> name = None, manufacturer = None, chemistry = None,
             design_capacity_mwh = Some 2000, full_charge_capacity_mwh = Some 1700,
             cycle_count = None \<rparr> = Inr h
        \<and> health_percentage h = Some (Finite 85)
        \<and> estimated_remaining_life h = ''18-24 months''
        \<and> estimated_remaining_life h \<noteq> ''unknown'')
   \<and> (\<exists>h. compute_health
           \<lparr> name = None, manufacturer = None, chemistry = None,
             design_capacity_mwh = Some 1000, full_charge_capacity_mwh = Some 699,
             cycle_count = Some 501 \<rparr> = Inr h
        \<and> health_percentage h = Some (Finite (round_double (699 / 10)))
        \<and> estimated_remaining_life h = ''6-12 months'')
   \<and> compute_health
        \<lparr> name = None, manufacturer = None, chemistry = None,
          design_capacity_mwh = Some 1, full_charge_capacity_mwh = Some (10 ^ 309),
          cycle_count = None \<rparr> = Inl OverflowError"
proof (intro conjI)
  let ?b = "\<lparr> name = None, manufacturer = None, chemistry = None,
             design_capacity_mwh = Some 2000, full_charge_capacity_mwh = None,
             cycle_count = Some 700 \<rparr>"
  have "\<not> quotient_too_large ?b" by (rule not_too_large_absent) simp
  with compute_health_remaining_life [of ?b]
  show "\<exists>h. compute_health ?b = Inr h \<and> health_percentage h = None
        \<and> estimated_remaining_life h = ''unknown''"
    by (auto simp: truthy_def)
next
  let ?b = "\<lparr> name = None, manufacturer = None, chemistry = None,
             design_capacity_mwh = Some 0, full_charge_capacity_mwh = Some 1700,
             cycle_count = None \<rparr>"
  have "\<not> quotient_too_large ?b" by (rule not_too_large_absent) simp
  with compute_health_remaining_life [of ?b]
  show "\<exists>h. compute_health ?b = Inr h \<and> health_percentage h = None
        \<and> estimated_remaining_life h = ''unknown''"
    by (auto simp: truthy_def)
next
  let ?b = "\<lparr> name = None, manufacturer = None, chemistry = None,
             design_capacity_mwh = Some 2000, full_charge_capacity_mwh = Some 1700,
             cycle_count = None \<rparr>"
  from compute_health_remaining_life [of ?b]
  obtain h where h: "compute_health ?b = Inr h" "health_percentage h = Some (Finite 85)"
    "estimated_remaining_life h = ''18-24 months''"
    by auto
  then show "\<exists>h. compute_health ?b = Inr h
        \<and> health_percentage h = Some (Finite 85)
        \<and> estimated_remaining_life h = ''18-24 months''
        \<and> estimated_remaining_life h \<noteq> ''unknown''"
    by auto
next
  let ?b = "\<lparr> name = None, manufacturer = None, chemistry = None,
             design_capacity_mwh = Some 1000, full_charge_capacity_mwh = Some 699,
             cycle_count = Some 501 \<rparr>"
  from compute_health_remaining_life [of ?b]
  show "\<exists>h. compute_health ?b = Inr h
        \<and> health_percentage h = Some (Finite (round_double (699 / 10)))
        \<and> estimated_remaining_life h = ''6-12 months''"
    by auto
next
  let ?b = "\<lparr> name = None, manufacturer = None, chemistry = None,
          design_capacity_mwh = Some 1, full_charge_capacity_mwh = Some (10 ^ 309),
          cycle_count = None \<rparr>"
  have "quotient_too_large ?b" by (rule too_large_example) simp_all
  with compute_health_remaining_life [of ?b]
  show "compute_health ?b = Inl OverflowError" by blast
qed

text \<open>
  Claim C3 as stated speaks of every BatteryInfo. With design capacity 1, full-charge
  capacity \<open>10 ^ 309\<close> and cycle count 600 the scorer raises OverflowError: there is no
  assessment, and so no cycle penalty.
\<close>

theorem compute_health_cycle_penalty_counterexample:
  "compute_health
     \<lparr> name = None, manufacturer = None, chemistry = None,
       design_capacity_mwh = Some 1, full_charge_capacity_mwh = Some (10 ^ 309),
       cycle_count = Some 600 \<rparr> = Inl OverflowError"
  using truediv_overflow_1 by (simp add: compute_health_raises)

text \<open>
  Claim C3, as amended. Unless both capacities are present and not zero and their
  quotient is too large for a float, the scorer returns an assessment, and its cycle
  penalty is 0 when the cycle count is absent or at most 500, and otherwise
  \<open>min 15 ((cycle_count - 500) div 50)\<close> with floor division; so it lies between 0 and
  15. Cycle counts 500 and 549 give 0, 600 gives 2 and 10000 gives 15. When the
  quotient is too large the scorer raises OverflowError and returns no assessment.
\<close>

theorem compute_health_cycle_penalty:
  "(\<not> quotient_too_large b \<longrightarrow>
      (\<exists>h. compute_health b = Inr h
         \<and> cycle_penalty h =
             (case cycle_count b of
                None \<Rightarrow> 0
              | Some c \<Rightarrow> if c \<le> 500 then 0 else min 15 ((c - 500) div 50))
         \<and> 0 \<le> cycle_penalty h \<and> cycle_penalty h \<le> 15
         \<and> (cycle_count b = Some 500 \<longrightarrow> cycle_penalty h = 0)
         \<and> (cycle_count b = Some 549 \<longrightarrow> cycle_penalty h = 0)
         \<and> (cycle_count b = Some 600 \<longrightarrow> cycle_penalty h = 2)
         \<and> (cycle_count b = Some 10000 \<longrightarrow> cycle_penalty h = 15)))
   \<and> (quotient_too_large b \<longrightarrow> compute_health b = Inl OverflowError)"
proof (intro conjI impI)
  assume "\<not> quotient_too_large b"
  from compute_health_returns [OF this] obtain h where h: "compute_health b = Inr h"
    by blast
  have p: "cycle_penalty h = penalty_of (cycle_count b)"
    by (rule compute_health_penalty [OF h])
  have q: "penalty_of (cycle_count b) =
             (case cycle_count b of
                None \<Rightarrow> 0
              | Some c \<Rightarrow> if c \<le> 500 then 0 else min 15 ((c - 500) div 50))"
    by (simp add: penalty_of_def)
  have e: "penalty_of (Some 500) = 0" "penalty_of (Some 549) = 0"
    "penalty_of (Some 600) = 2" "penalty_of (Some 10000) = 15"
    by (simp_all add: penalty_of_def)
  from h p q e penalty_of_bounds [of "cycle_count b"]
  show "\<exists>h. compute_health b = Inr h
         \<and> cycle_penalty h =
             (case cycle_count b of
                None \<Rightarrow> 0
              | Some c \<Rightarrow> if c \<le> 500 then 0 else min 15 ((c - 500) div 50))
         \<and> 0 \<le> cycle_penalty h \<and> cycle_penalty h \<le> 15
         \<and> (cycle_count b = Some 500 \<longrightarrow> cycle_penalty h = 0)
         \<and> (cycle_count b = Some 549 \<longrightarrow> cycle_penalty h = 0)
         \<and> (cycle_count b = Some 600 \<longrightarrow> cycle_penalty h = 2)
         \<and> (cycle_count b = Some 10000 \<longrightarrow> cycle_penalty h = 15)"
    by (intro exI [of _ h]) simp
next
  assume "quotient_too_large b"
  then show "compute_health b = Inl OverflowError" by (rule compute_health_too_large)
qed

theorem compute_health_cycle_penalty_witness:
  "(\<exists>h. compute_health
           \<lparr> name = None, manufacturer = None, chemistry = None,
             design_capacity_mwh = None, full_charge_capacity_mwh = None,
             cycle_count = Some 600 \<rparr> = Inr h
        \<and> cycle_penalty h = 2)
   \<and> (\<exists>h. compute_health
           \<lparr> name = None, manufacturer = None, chemistry = None,
             design_capacity_mwh = Some 2000, full_charge_capacity_mwh = Some 1700,
             cycle_count = Some 10000 \<rparr> = Inr h
        \<and> cycle_penalty h = 15)
   \<and> (\<exists>h. compute_health
           \<lparr> name = None, manufacturer = None, chemistry = None,
             design_capacity_mwh = Some 1000, full_charge_capacity_mwh = Some 699,
             cycle_count = Some 549 \<rparr> = Inr h
        \<and> cycle_penalty h = 0)
   \<and> (\<exists>h. compute_health
           \<lparr> name = None, manufacturer = None, chemistry = None,
             design_capacity_mwh = Some 2000, full_charge_capacity_mwh = Some 1700,
             cycle_count = Some 777 \<rparr> = Inr h
        \<and> cycle_penalty h = 5)
   \<and> (\<exists>h. compute_health
           \<lparr> name = None, manufacturer = None, chemistry = None,
             design_capacity_mwh = Some 2000, full_charge_capacity_mwh = Some 1700,
             cycle_count = None \<rparr> = Inr h
        \<and> cycle_penalty h = 0)
   \<and> compute_health
        \<lparr> name = None, manufacturer = None, chemistry = None,
          design_capacity_mwh = Some 1, full_charge_capacity_mwh = Some (10 ^ 309),
          cycle_count = Some 10000 \<rparr> = Inl OverflowError"
proof (intro conjI)
  let ?b = "\<lparr> name = None, manufacturer = None, chemistry = None,
             design_capacity_mwh = None, full_charge_capacity_mwh = None,
             cycle_count = Some 600 \<rparr>"
  have "\<not> quotient_too_large ?b" by (rule not_too_large_absent) simp
  with compute_health_cycle_penalty [of ?b]
  show "\<exists>h. compute_health ?b = Inr h \<and> cycle_penalty h = 2" by auto
next
  let ?b = "\<lparr> name = None, manufacturer = None, chemistry = None,
             design_capacity_mwh = Some 2000, full_charge_capacity_mwh = Some 1700,
             cycle_count = Some 10000 \<rparr>"
  have "\<not> quotient_too_large ?b" by (rule not_too_large_1700_2000) simp_all
  with compute_health_cycle_penalty [of ?b]
  show "\<exists>h. compute_health ?b = Inr h \<and> cycle_penalty h = 15" by auto
next
  let ?b = "\<lparr> name = None, manufacturer = None, chemistry = None,
             design_capacity_mwh = Some 1000, full_charge_capacity_mwh = Some 699,
             cycle_count = Some 549 \<rparr>"
  have "\<not> quotient_too_large ?b" by (rule not_too_large_699_1000) simp_all
  with compute_health_cycle_penalty [of ?b]
  show "\<exists>h. compute_health ?b = Inr h \<and> cycle_penalty h = 0" by auto
next
  let ?b = "\<lparr> name = None, manufacturer = None, chemistry = None,
             design_capacity_mwh = Some 2000, full_charge_capacity_mwh = Some 1700,
             cycle_count = Some 777 \<rparr>"
  have "\<not> quotient_too_large ?b" by (rule not_too_large_1700_2000) simp_all
  with compute_health_cycle_penalty [of ?b]
  show "\<exists>h. compute_health ?b = Inr h \<and> cycle_penalty h = 5" by auto
next
  let ?b = "\<lparr> name = None, manufacturer = None, chemistry = None,
             design_capacity_mwh = Some 2000, full_charge_capacity_mwh = Some 1700,
             cycle_count = None \<rparr>"
  have "\<not> quotient_too_large ?b" by (rule not_too_large_1700_2000) simp_all
  with compute_health_cycle_penalty [of ?b]
  show "\<exists>h. compute_health ?b = Inr h \<and> cycle_penalty h = 0" by auto
next
  let ?b = "\<lparr> name = None, manufacturer = None, chemistry = None,
          design_capacity_mwh = Some 1, full_charge_capacity_mwh = Some (10 ^ 309),
          cycle_count = Some 10000 \<rparr>"
  have "quotient_too_large ?b" by (rule too_large_example) simp_all
  with compute_health_cycle_penalty [of ?b]
  show "compute_health ?b = Inl OverflowError" by blast
qed

section \<open>The matcher\<close>

lemma first_some_None_iff: "first_some f xs = None \<longleftrightarrow> (\<forall>x \<in> set xs. f x = None)"
  by (induction xs) (auto split: option.splits)

lemma first_some_not_None:
  "x \<in> set xs \<Longrightarrow> f x \<noteq> None \<Longrightarrow> first_some f xs \<noteq> None"
  by (simp add: first_some_None_iff) blast

lemma first_some_SomeD:
  "first_some f xs = Some y \<Longrightarrow>
     \<exists>i < length xs. f (xs ! i) = Some y \<and> (\<forall>j < i. f (xs ! j) = None)"
proof (induction xs)
  case Nil
  then show ?case by simp
next
  case (Cons x xs)
  show ?case
  proof (cases "f x")
    case None
    with Cons.prems have "first_some f xs = Some y" by simp
    from Cons.IH [OF this] obtain i where i: "i < length xs" "f (xs ! i) = Some y"
      "\<forall>j < i. f (xs ! j) = None" by blast
    have "\<forall>j < Suc i. f ((x # xs) ! j) = None"
      using None i(3) by (auto simp: less_Suc_eq_0_disj)
    with i(1,2) show ?thesis by (intro exI [of _ "Suc i"]) simp
  next
    case (Some z)
    with Cons.prems have "z = y" by simp
    with Some show ?thesis by (intro exI [of _ 0]) simp
  qed
qed

lemma with_segment_Some_iff:
  "with_segment seg res = Some (segs, r) \<longleftrightarrow> (\<exists>segs'. segs = seg # segs' \<and> res = Some (segs', r))"
  by (cases res) (auto simp: with_segment_def)

lemma with_segment_None_iff: "with_segment seg res = None \<longleftrightarrow> res = None"
  by (simp add: with_segment_def)

lemma takeWhile_take_all:
  "n \<le> length (takeWhile P s) \<Longrightarrow> list_all P (take n s)"
proof -
  assume n: "n \<le> length (takeWhile P s)"
  have "take n s = take n (takeWhile P s)"
    using n by (metis takeWhile_dropWhile_id take_append diff_is_0_eq' take_0 append_Nil2)
  moreover have "list_all P (takeWhile P s)"
    by (simp add: list_all_iff) (meson set_takeWhileD)
  ultimately show ?thesis
    by (metis append_take_drop_id list_all_append)
qed

lemma all_prefix_le_takeWhile:
  "list_all P seg \<Longrightarrow> length seg \<le> length (takeWhile P (seg @ r))"
  by (induction seg) auto

lemma match_here_sound:
  "match_here p s = Some (segs, r) \<Longrightarrow> list_all2 item_ok p segs \<and> s = concat segs @ r"
proof (induction p arbitrary: s segs r)
  case Nil
  then show ?case by simp
next
  case (Cons it p)
  show ?case
  proof (cases it)
    case (Lit c)
    with Cons.prems obtain x xs segs' where
      s: "s = x # xs" "py_lower x = py_lower c" "segs = [x] # segs'"
      "match_here p xs = Some (segs', r)"
      by (auto simp: with_segment_Some_iff split: list.splits if_splits)
    from Cons.IH [OF s(4)] s Lit show ?thesis by simp
  next
    case (One k)
    with Cons.prems obtain x xs segs' where
      s: "s = x # xs" "cls_match k x" "segs = [x] # segs'"
      "match_here p xs = Some (segs', r)"
      by (auto simp: with_segment_Some_iff split: list.splits if_splits)
    from Cons.IH [OF s(4)] s One show ?thesis by simp
  next
    case (Star k)
    let ?ns = "rev [0 ..< Suc (length (takeWhile (cls_match k) s))]"
    from Cons.prems Star
    have "first_some (\<lambda>n. with_segment (take n s) (match_here p (drop n s))) ?ns = Some (segs, r)"
      by (simp del: upt_Suc)
    from first_some_SomeD [OF this] obtain i where
      i: "i < length ?ns" "with_segment (take (?ns ! i) s) (match_here p (drop (?ns ! i) s)) = Some (segs, r)"
      by blast
    define n where "n = ?ns ! i"
    have "n \<in> set ?ns" unfolding n_def using i(1) by (rule nth_mem)
    then have n: "n \<le> length (takeWhile (cls_match k) s)" by (auto simp del: upt_Suc)
    from i(2) obtain segs' where
      m: "segs = take n s # segs'" "match_here p (drop n s) = Some (segs', r)"
      by (auto simp: with_segment_Some_iff n_def)
    from Cons.IH [OF m(2)] have ih: "list_all2 item_ok p segs'" "drop n s = concat segs' @ r"
      by simp_all
    have "s = take n s @ drop n s" by simp
    with ih(2) have "s = concat segs @ r" by (simp add: m(1))
    moreover have "list_all (cls_match k) (take n s)" using n by (rule takeWhile_take_all)
    ultimately show ?thesis using Star m(1) ih(1) by simp
  next
    case (LazyStar k)
    let ?ns = "[0 ..< Suc (length (takeWhile (cls_match k) s))]"
    from Cons.prems LazyStar
    have "first_some (\<lambda>n. with_segment (take n s) (match_here p (drop n s))) ?ns = Some (segs, r)"
      by (simp del: upt_Suc)
    from first_some_SomeD [OF this] obtain i where
      i: "i < length ?ns" "with_segment (take (?ns ! i) s) (match_here p (drop (?ns ! i) s)) = Some (segs, r)"
      by blast
    define n where "n = ?ns ! i"
    have "n \<in> set ?ns" unfolding n_def using i(1) by (rule nth_mem)
    then have n: "n \<le> length (takeWhile (cls_match k) s)" by (auto simp del: upt_Suc)
    from i(2) obtain segs' where
      m: "segs = take n s # segs'" "match_here p (drop n s) = Some (segs', r)"
      by (auto simp: with_segment_Some_iff n_def)
    from Cons.IH [OF m(2)] have ih: "list_all2 item_ok p segs'" "drop n s = concat segs' @ r"
      by simp_all
    have "s = take n s @ drop n s" by simp
    with ih(2) have "s = concat segs @ r" by (simp add: m(1))
    moreover have "list_all (cls_match k) (take n s)" using n by (rule takeWhile_take_all)
    ultimately show ?thesis using LazyStar m(1) ih(1) by simp
  qed
qed

lemma match_here_complete:
  "list_all2 item_ok p segs \<Longrightarrow> match_here p (concat segs @ r) \<noteq> None"
proof (induction p arbitrary: segs)
  case Nil
  then show ?case by simp
next
  case (Cons it p)
  from Cons.prems obtain seg segs' where
    segs: "segs = seg # segs'" "item_ok it seg" "list_all2 item_ok p segs'"
    by (auto simp: list_all2_Cons1)
  note ih = Cons.IH [OF segs(3)]
  show ?case
  proof (cases it)
    case (Lit c)
    with segs(2) obtain x where "seg = [x]" "py_lower x = py_lower c"
      by (auto split: list.splits)
    then show ?thesis using ih Lit segs(1) by (simp add: with_segment_None_iff)
  next
    case (One k)
    with segs(2) obtain x where "seg = [x]" "cls_match k x"
      by (auto split: list.splits)
    then show ?thesis using ih One segs(1) by (simp add: with_segment_None_iff)
  next
    case (Star k)
    let ?s = "concat segs @ r"
    have all: "list_all (cls_match k) seg" using segs(2) Star by simp
    have s: "?s = seg @ (concat segs' @ r)" by (simp add: segs(1))
    have "length seg \<le> length (takeWhile (cls_match k) ?s)"
      unfolding s using all by (rule all_prefix_le_takeWhile)
    then have mem: "length seg \<in> set (rev [0 ..< Suc (length (takeWhile (cls_match k) ?s))])"
      by (simp add: less_Suc_eq_le del: upt_Suc)
    have "with_segment (take (length seg) ?s) (match_here p (drop (length seg) ?s)) \<noteq> None"
      using ih by (simp add: s with_segment_None_iff)
    with mem have "first_some (\<lambda>n. with_segment (take n ?s) (match_here p (drop n ?s)))
        (rev [0 ..< Suc (length (takeWhile (cls_match k) ?s))]) \<noteq> None"
      by (rule first_some_not_None)
    then show ?thesis using Star by (simp del: upt_Suc)
  next
    case (LazyStar k)
    let ?s = "concat segs @ r"
    have all: "list_all (cls_match k) seg" using segs(2) LazyStar by simp
    have s: "?s = seg @ (concat segs' @ r)" by (simp add: segs(1))
    have "length seg \<le> length (takeWhile (cls_match k) ?s)"
      unfolding s using all by (rule all_prefix_le_takeWhile)
    then have mem: "length seg \<in> set [0 ..< Suc (length (takeWhile (cls_match k) ?s))]"
      by (simp add: less_Suc_eq_le del: upt_Suc)
    have "with_segment (take (length seg) ?s) (match_here p (drop (length seg) ?s)) \<noteq> None"
      using ih by (simp add: s with_segment_None_iff)
    with mem have "first_some (\<lambda>n. with_segment (take n ?s) (match_here p (drop n ?s)))
        [0 ..< Suc (length (takeWhile (cls_match k) ?s))] \<noteq> None"
      by (rule first_some_not_None)
    then show ?thesis using LazyStar by (simp del: upt_Suc)
  qed
qed

lemma match_here_append:
  "match_here (p @ q) s = Some (segs, r) \<Longrightarrow>
     \<exists>segs1 segs2. segs = segs1 @ segs2 \<and> list_all2 item_ok p segs1
        \<and> match_here q (drop (length (concat segs1)) s) = Some (segs2, r)"
proof (induction p arbitrary: s segs)
  case Nil
  then show ?case by simp
next
  case (Cons it p)
  have step: "\<exists>segs1 segs2. segs = segs1 @ segs2 \<and> list_all2 item_ok (it # p) segs1
        \<and> match_here q (drop (length (concat segs1)) s) = Some (segs2, r)"
    if seg: "item_ok it seg" and s: "s = seg @ t" and segs: "segs = seg # segs'"
      and m: "match_here (p @ q) t = Some (segs', r)" for seg t segs'
  proof -
    from Cons.IH [OF m] obtain segs1 segs2 where
      ih: "segs' = segs1 @ segs2" "list_all2 item_ok p segs1"
      "match_here q (drop (length (concat segs1)) t) = Some (segs2, r)" by blast
    have "segs = (seg # segs1) @ segs2" using segs ih(1) by simp
    moreover have "list_all2 item_ok (it # p) (seg # segs1)" using seg ih(2) by simp
    moreover have "match_here q (drop (length (concat (seg # segs1))) s) = Some (segs2, r)"
      using ih(3) s by simp
    ultimately show ?thesis by blast
  qed
  show ?case
  proof (cases it)
    case (Lit c)
    with Cons.prems obtain x xs segs' where
      s: "s = x # xs" "py_lower x = py_lower c" "segs = [x] # segs'"
      "match_here (p @ q) xs = Some (segs', r)"
      by (auto simp: with_segment_Some_iff split: list.splits if_splits)
    show ?thesis
      by (rule step [of "[x]" xs segs']) (use s Lit in simp_all)
  next
    case (One k)
    with Cons.prems obtain x xs segs' where
      s: "s = x # xs" "cls_match k x" "segs = [x] # segs'"
      "match_here (p @ q) xs = Some (segs', r)"
      by (auto simp: with_segment_Some_iff split: list.splits if_splits)
    show ?thesis
      by (rule step [of "[x]" xs segs']) (use s One in simp_all)
  next
    case (Star k)
    let ?ns = "rev [0 ..< Suc (length (takeWhile (cls_match k) s))]"
    from Cons.prems Star
    have "first_some (\<lambda>n. with_segment (take n s) (match_here (p @ q) (drop n s))) ?ns = Some (segs, r)"
      by (simp del: upt_Suc)
    from first_some_SomeD [OF this] obtain i where
      i: "i < length ?ns"
      "with_segment (take (?ns ! i) s) (match_here (p @ q) (drop (?ns ! i) s)) = Some (segs, r)"
      by blast
    define n where "n = ?ns ! i"
    have "n \<in> set ?ns" unfolding n_def using i(1) by (rule nth_mem)
    then have n: "n \<le> length (takeWhile (cls_match k) s)" by (auto simp del: upt_Suc)
    from i(2) obtain segs' where
      m: "segs = take n s # segs'" "match_here (p @ q) (drop n s) = Some (segs', r)"
      by (auto simp: with_segment_Some_iff n_def)
    have "list_all (cls_match k) (take n s)" using n by (rule takeWhile_take_all)
    then show ?thesis
      by (intro step [of "take n s" "drop n s" segs']) (use m Star in simp_all)
  next
    case (LazyStar k)
    let ?ns = "[0 ..< Suc (length (takeWhile (cls_match k) s))]"
    from Cons.prems LazyStar
    have "first_some (\<lambda>n. with_segment (take n s) (match_here (p @ q) (drop n s))) ?ns = Some (segs, r)"
      by (simp del: upt_Suc)
    from first_some_SomeD [OF this] obtain i where
      i: "i < length ?ns"
      "with_segment (take (?ns ! i) s) (match_here (p @ q) (drop (?ns ! i) s)) = Some (segs, r)"
      by blast
    define n where "n = ?ns ! i"
    have "n \<in> set ?ns" unfolding n_def using i(1) by (rule nth_mem)
    then have n: "n \<le> length (takeWhile (cls_match k) s)" by (auto simp del: upt_Suc)
    from i(2) obtain segs' where
      m: "segs = take n s # segs'" "match_here (p @ q) (drop n s) = Some (segs', r)"
      by (auto simp: with_segment_Some_iff n_def)
    have "list_all (cls_match k) (take n s)" using n by (rule takeWhile_take_all)
    then show ?thesis
      by (intro step [of "take n s" "drop n s" segs']) (use m LazyStar in simp_all)
  qed
qed

lemma nth_upt_Suc0: "i < Suc n \<Longrightarrow> [0 ..< Suc n] ! i = i"
  by (metis add_0 nth_upt)

lemma match_here_lazy_first:
  assumes "match_here (LazyStar k # q) s = Some (segs, r)"
  shows "\<exists>seg segs'. segs = seg # segs' \<and> seg = take (length seg) s
           \<and> list_all (cls_match k) seg
           \<and> match_here q (drop (length seg) s) = Some (segs', r)
           \<and> (\<forall>n < length seg. match_here q (drop n s) = None)"
proof -
  let ?ns = "[0 ..< Suc (length (takeWhile (cls_match k) s))]"
  let ?f = "\<lambda>n. with_segment (take n s) (match_here q (drop n s))"
  from assms have "first_some ?f ?ns = Some (segs, r)" by (simp del: upt_Suc)
  from first_some_SomeD [OF this] obtain i where
    i: "i < length ?ns" "?f (?ns ! i) = Some (segs, r)" "\<forall>j < i. ?f (?ns ! j) = None"
    by blast
  have i_lt: "i < Suc (length (takeWhile (cls_match k) s))" using i(1) by (simp del: upt_Suc)
  have nth: "?ns ! j = j" if "j \<le> i" for j
    using that i_lt by (intro nth_upt_Suc0) simp
  have i_le: "i \<le> length (takeWhile (cls_match k) s)" using i_lt by simp
  then have i_len: "i \<le> length s"
    by (meson le_trans length_takeWhile_le)
  from i(2) have "?f i = Some (segs, r)" unfolding nth [OF order_refl] .
  then obtain segs' where
    m: "segs = take i s # segs'" "match_here q (drop i s) = Some (segs', r)"
    by (auto simp: with_segment_Some_iff)
  have len: "length (take i s) = i" using i_len by simp
  have none: "\<forall>n < i. match_here q (drop n s) = None"
  proof (intro allI impI)
    fix n assume n: "n < i"
    have e: "?ns ! n = n" using n by (intro nth) simp
    from i(3) n have "?f (?ns ! n) = None" by blast
    then have "?f n = None" unfolding e .
    then show "match_here q (drop n s) = None" by (simp add: with_segment_None_iff)
  qed
  have "list_all (cls_match k) (take i s)" using i_le by (rule takeWhile_take_all)
  with m len none show ?thesis by simp
qed

lemma search_SomeD:
  assumes "search p s = Some (before, segs, r)"
  shows "s = before @ concat segs @ r"
    and "match_here p (drop (length before) s) = Some (segs, r)"
    and "list_all2 item_ok p segs"
    and "\<forall>n < length before. match_here p (drop n s) = None"
proof -
  let ?ns = "[0 ..< Suc (length s)]"
  let ?f = "\<lambda>n. map_option (\<lambda>(segs, rest). (take n s, segs, rest)) (match_here p (drop n s))"
  from assms have "first_some ?f ?ns = Some (before, segs, r)" by (simp add: search_def del: upt_Suc)
  from first_some_SomeD [OF this] obtain i where
    i: "i < length ?ns" "?f (?ns ! i) = Some (before, segs, r)" "\<forall>j < i. ?f (?ns ! j) = None"
    by blast
  have i_lt: "i < Suc (length s)" using i(1) by (simp del: upt_Suc)
  have nth: "?ns ! j = j" if "j \<le> i" for j
    using that i_lt by (intro nth_upt_Suc0) simp
  have i_len: "i \<le> length s" using i_lt by simp
  from i(2) have "?f i = Some (before, segs, r)" unfolding nth [OF order_refl] .
  then have m: "before = take i s" "match_here p (drop i s) = Some (segs, r)"
    by auto
  have len: "length before = i" using m(1) i_len by simp
  from match_here_sound [OF m(2)]
  have snd: "list_all2 item_ok p segs" "drop i s = concat segs @ r" by simp_all
  have "s = take i s @ drop i s" by simp
  then show "s = before @ concat segs @ r" using m(1) snd(2) by simp
  show "match_here p (drop (length before) s) = Some (segs, r)" using m(2) len by simp
  show "list_all2 item_ok p segs" by fact
  show "\<forall>n < length before. match_here p (drop n s) = None"
  proof (intro allI impI)
    fix n assume n: "n < length before"
    have e: "?ns ! n = n" using n len by (intro nth) simp
    from i(3) n len have "?f (?ns ! n) = None" by blast
    then have "?f n = None" unfolding e .
    then show "match_here p (drop n s) = None" by simp
  qed
qed

lemma search_None_iff:
  "search p s = None \<longleftrightarrow> (\<forall>n \<le> length s. match_here p (drop n s) = None)"
proof -
  have "search p s = None \<longleftrightarrow> (\<forall>n \<in> set [0 ..< Suc (length s)]. match_here p (drop n s) = None)"
    unfolding search_def first_some_None_iff by simp
  also have "\<dots> \<longleftrightarrow> (\<forall>n \<le> length s. match_here p (drop n s) = None)"
    by (auto simp add: less_Suc_eq_le simp del: upt_Suc)
  finally show ?thesis .
qed

lemma search_not_None:
  assumes "list_all2 item_ok p segs"
  shows "search p (before @ concat segs @ r) \<noteq> None"
proof
  let ?s = "before @ concat segs @ r"
  assume "search p ?s = None"
  then have "\<forall>n \<le> length ?s. match_here p (drop n ?s) = None"
    by (simp only: search_None_iff)
  moreover have "length before \<le> length ?s" by simp
  ultimately have "match_here p (drop (length before) ?s) = None" by blast
  then have "match_here p (concat segs @ r) = None" by simp
  with match_here_complete [OF assms, of r] show False by simp
qed

lemma of_char_py_lower:
  "(of_char (py_lower x) :: nat) =
     (let n = of_char x in
      if (65 \<le> n \<and> n \<le> 90) \<or> (192 \<le> n \<and> n \<le> 222 \<and> n \<noteq> 215) then n + 32 else n)"
  by (auto simp: py_lower_def Let_def)

lemma py_lower_eq_lt [simp]: "py_lower x = CHR ''<'' \<longleftrightarrow> x = CHR ''<''"
proof
  assume "py_lower x = CHR ''<''"
  then have "(of_char (py_lower x) :: nat) = of_char (CHR ''<'')" by simp
  then have "(of_char x :: nat) = of_char (CHR ''<'')"
    unfolding of_char_py_lower by (simp add: Let_def split: if_splits)
  then show "x = CHR ''<''" by (simp only: of_char_eq_iff)
next
  assume "x = CHR ''<''"
  then show "py_lower x = CHR ''<''" by (simp add: py_lower_def)
qed

lemma py_lower_eq_gt [simp]: "py_lower x = CHR ''>'' \<longleftrightarrow> x = CHR ''>''"
proof
  assume "py_lower x = CHR ''>''"
  then have "(of_char (py_lower x) :: nat) = of_char (CHR ''>'')" by simp
  then have "(of_char x :: nat) = of_char (CHR ''>'')"
    unfolding of_char_py_lower by (simp add: Let_def split: if_splits)
  then show "x = CHR ''>''" by (simp only: of_char_eq_iff)
next
  assume "x = CHR ''>''"
  then show "py_lower x = CHR ''>''" by (simp add: py_lower_def)
qed

lemma not_space_lt [simp]: "\<not> is_space (CHR ''<'')"
  by (simp add: is_space_def)

lemma not_space_amp [simp]: "\<not> is_space (CHR ''&'')"
  by (simp add: is_space_def)

lemma py_lower_lits: "py_lower (CHR ''<'') = CHR ''<''" "py_lower (CHR ''>'') = CHR ''>''"
  by (simp_all add: py_lower_def)

lemma ci_eq_length: "ci_eq a b \<Longrightarrow> length a = length b"
  unfolding ci_eq_def str_lower_def by (metis length_map)

lemma ci_eq_refl [simp]: "ci_eq a a"
  by (simp add: ci_eq_def)

lemma ci_eq_Cons:
  "ci_eq c (a # x) \<longleftrightarrow> (\<exists>y c'. c = y # c' \<and> py_lower y = py_lower a \<and> ci_eq c' x)"
  by (cases c) (auto simp: ci_eq_def str_lower_def)

lemma ci_eq_Nil [simp]: "ci_eq c [] \<longleftrightarrow> c = []"
  by (simp add: ci_eq_def str_lower_def)

lemma lits_okD:
  "list_all2 item_ok (lits x) segs \<Longrightarrow> ci_eq (concat segs) x"
proof (induction x arbitrary: segs)
  case Nil
  then show ?case by (simp add: lits_def)
next
  case (Cons a x)
  from Cons.prems obtain seg segs' where
    s: "segs = seg # segs'" "item_ok (Lit a) seg" "list_all2 item_ok (lits x) segs'"
    by (auto simp: lits_def list_all2_Cons1)
  from s(2) obtain y where y: "seg = [y]" "py_lower y = py_lower a"
    by (auto split: list.splits)
  from Cons.IH [OF s(3)] y s(1) show ?case by (simp add: ci_eq_Cons)
qed

lemma lits_okI:
  "ci_eq c x \<Longrightarrow> list_all2 item_ok (lits x) (map (\<lambda>a. [a]) c)"
proof (induction x arbitrary: c)
  case Nil
  then show ?case by (simp add: lits_def)
next
  case (Cons a x)
  from Cons.prems obtain y c' where c: "c = y # c'" "py_lower y = py_lower a" "ci_eq c' x"
    by (auto simp: ci_eq_Cons)
  from Cons.IH [OF c(3)] c(1,2) show ?case by (simp add: lits_def)
qed

lemma concat_singletons [simp]: "concat (map (\<lambda>a. [a]) c) = c"
  by (induction c) simp_all

lemma length_lits [simp]: "length (lits x) = length x"
  by (simp add: lits_def)

lemma match_lits_None_iff:
  "match_here (lits x) s = None \<longleftrightarrow> \<not> (\<exists>c post. s = c @ post \<and> ci_eq c x)"
proof
  assume none: "match_here (lits x) s = None"
  show "\<not> (\<exists>c post. s = c @ post \<and> ci_eq c x)"
  proof
    assume "\<exists>c post. s = c @ post \<and> ci_eq c x"
    then obtain c post where s: "s = c @ post" "ci_eq c x" by blast
    from match_here_complete [OF lits_okI [OF s(2)], of post] none s(1)
    show False by simp
  qed
next
  assume no: "\<not> (\<exists>c post. s = c @ post \<and> ci_eq c x)"
  show "match_here (lits x) s = None"
  proof (rule ccontr)
    assume "match_here (lits x) s \<noteq> None"
    then obtain segs r where "match_here (lits x) s = Some (segs, r)" by auto
    from match_here_sound [OF this] have "list_all2 item_ok (lits x) segs" "s = concat segs @ r"
      by simp_all
    with lits_okD [of x segs] no show False by blast
  qed
qed

lemma run_unique:
  assumes "list_all P xs" "list_all P ys" "xs @ a # r = ys @ b # r'" "\<not> P a" "\<not> P b"
  shows "xs = ys \<and> a # r = b # r'"
  using assms
proof (induction xs arbitrary: ys)
  case Nil
  then show ?case by (cases ys) auto
next
  case (Cons x xs)
  show ?case
  proof (cases ys)
    case Nil
    with Cons.prems show ?thesis by auto
  next
    case (Cons y ys')
    with Cons.prems Cons.IH [of ys'] show ?thesis by auto
  qed
qed

lemma ci_eq_starts_lt:
  assumes "ci_eq c (CHR ''<'' # x)"
  shows "\<exists>c'. c = CHR ''<'' # c' \<and> length c' = length x"
proof -
  from assms obtain y c' where c: "c = y # c'" "py_lower y = py_lower (CHR ''<'')" "ci_eq c' x"
    by (auto simp: ci_eq_Cons)
  from c(2) have "y = CHR ''<''" by (simp add: py_lower_lits)
  with c(1) ci_eq_length [OF c(3)] show ?thesis by simp
qed

lemma opens_at_unique:
  assumes "opens_at label t u" "opens_at label t u'"
  shows "u = u'"
proof -
  from assms(1) obtain lab ws1 c1 ws2 opn attrs where
    a: "t = lab @ ws1 @ c1 @ ws2 @ opn @ attrs @ CHR ''>'' # u"
       "ci_eq lab label" "list_all is_space ws1" "ci_eq c1 ''</td>''"
       "list_all is_space ws2" "ci_eq opn ''<td''" "CHR ''>'' \<notin> set attrs"
    unfolding opens_at_def by blast
  from assms(2) obtain lab' ws1' c1' ws2' opn' attrs' where
    b: "t = lab' @ ws1' @ c1' @ ws2' @ opn' @ attrs' @ CHR ''>'' # u'"
       "ci_eq lab' label" "list_all is_space ws1'" "ci_eq c1' ''</td>''"
       "list_all is_space ws2'" "ci_eq opn' ''<td''" "CHR ''>'' \<notin> set attrs'"
    unfolding opens_at_def by blast
  have "length lab = length lab'" using ci_eq_length [OF a(2)] ci_eq_length [OF b(2)] by simp
  with a(1) b(1) have 1: "ws1 @ c1 @ ws2 @ opn @ attrs @ CHR ''>'' # u
      = ws1' @ c1' @ ws2' @ opn' @ attrs' @ CHR ''>'' # u'" by simp
  from ci_eq_starts_lt [of c1 "''/td>''"] a(4) obtain d1 where d1: "c1 = CHR ''<'' # d1" "length d1 = 4"
    by auto
  from ci_eq_starts_lt [of c1' "''/td>''"] b(4) obtain d1' where d1': "c1' = CHR ''<'' # d1'" "length d1' = 4"
    by auto
  from run_unique [OF a(3) b(3), of "CHR ''<''" "d1 @ ws2 @ opn @ attrs @ CHR ''>'' # u"
      "CHR ''<''" "d1' @ ws2' @ opn' @ attrs' @ CHR ''>'' # u'"] 1 d1 d1'
  have 2: "d1 @ ws2 @ opn @ attrs @ CHR ''>'' # u = d1' @ ws2' @ opn' @ attrs' @ CHR ''>'' # u'"
    by simp
  with d1(2) d1'(2) have 3: "ws2 @ opn @ attrs @ CHR ''>'' # u = ws2' @ opn' @ attrs' @ CHR ''>'' # u'"
    by simp
  from ci_eq_starts_lt [of opn "''td''"] a(6) obtain o1 where o1: "opn = CHR ''<'' # o1" "length o1 = 2"
    by auto
  from ci_eq_starts_lt [of opn' "''td''"] b(6) obtain o1' where o1': "opn' = CHR ''<'' # o1'" "length o1' = 2"
    by auto
  from run_unique [OF a(5) b(5), of "CHR ''<''" "o1 @ attrs @ CHR ''>'' # u"
      "CHR ''<''" "o1' @ attrs' @ CHR ''>'' # u'"] 3 o1 o1'
  have 4: "o1 @ attrs @ CHR ''>'' # u = o1' @ attrs' @ CHR ''>'' # u'"
    by simp
  with o1(2) o1'(2) have 5: "attrs @ CHR ''>'' # u = attrs' @ CHR ''>'' # u'"
    by simp
  have "list_all (\<lambda>x. x \<noteq> CHR ''>'') attrs" "list_all (\<lambda>x. x \<noteq> CHR ''>'') attrs'"
    using a(7) b(7) by (auto simp: list_all_iff)
  from run_unique [OF this 5] show ?thesis by simp
qed

lemma list_all2_appendD:
  "list_all2 P (xs @ ys) zs \<Longrightarrow>
     \<exists>us vs. zs = us @ vs \<and> list_all2 P xs us \<and> list_all2 P ys vs"
  by (auto simp: list_all2_append1)

lemma list_all2_singleD: "list_all2 P [x] zs \<Longrightarrow> \<exists>z. zs = [z] \<and> P x z"
  by (cases zs) (auto simp: list_all2_Cons1)

lemma opening_okD:
  assumes "list_all2 item_ok
     (lits label @ [Star Space] @ lits ''</td>'' @ [Star Space] @ lits ''<td''
        @ [Star (NotChar (CHR ''>'')), Lit (CHR ''>'')]) segs1"
  shows "opens_at label (concat segs1 @ u) u" and "length segs1 = length label + 12"
proof -
  from list_all2_appendD [OF assms] obtain sl r1 where
    1: "segs1 = sl @ r1" "list_all2 item_ok (lits label) sl"
       "list_all2 item_ok ([Star Space] @ lits ''</td>'' @ [Star Space] @ lits ''<td''
          @ [Star (NotChar (CHR ''>'')), Lit (CHR ''>'')]) r1"
    by blast
  from list_all2_appendD [OF 1(3)] obtain w1 r2 where
    2: "r1 = w1 @ r2" "list_all2 item_ok [Star Space] w1"
       "list_all2 item_ok (lits ''</td>'' @ [Star Space] @ lits ''<td''
          @ [Star (NotChar (CHR ''>'')), Lit (CHR ''>'')]) r2"
    by blast
  from list_all2_appendD [OF 2(3)] obtain sc r3 where
    3: "r2 = sc @ r3" "list_all2 item_ok (lits ''</td>'') sc"
       "list_all2 item_ok ([Star Space] @ lits ''<td''
          @ [Star (NotChar (CHR ''>'')), Lit (CHR ''>'')]) r3"
    by blast
  from list_all2_appendD [OF 3(3)] obtain w2 r4 where
    4: "r3 = w2 @ r4" "list_all2 item_ok [Star Space] w2"
       "list_all2 item_ok (lits ''<td'' @ [Star (NotChar (CHR ''>'')), Lit (CHR ''>'')]) r4"
    by blast
  from list_all2_appendD [OF 4(3)] obtain so r5 where
    5: "r4 = so @ r5" "list_all2 item_ok (lits ''<td'') so"
       "list_all2 item_ok [Star (NotChar (CHR ''>'')), Lit (CHR ''>'')] r5"
    by blast
  from list_all2_singleD [OF 2(2)] obtain ws1 where ws1: "w1 = [ws1]" "list_all is_space ws1"
    by (auto simp: list_all_iff)
  from list_all2_singleD [OF 4(2)] obtain ws2 where ws2: "w2 = [ws2]" "list_all is_space ws2"
    by (auto simp: list_all_iff)
  from 5(3) have "list_all2 item_ok ([Star (NotChar (CHR ''>''))] @ [Lit (CHR ''>'')]) r5" by simp
  from list_all2_appendD [OF this] obtain ra rg where
    6: "r5 = ra @ rg" "list_all2 item_ok [Star (NotChar (CHR ''>''))] ra"
       "list_all2 item_ok [Lit (CHR ''>'')] rg" by blast
  from list_all2_singleD [OF 6(2)] list_all2_singleD [OF 6(3)] 6(1)
  obtain attrs g where r5: "r5 = [attrs, g]" "list_all (cls_match (NotChar (CHR ''>''))) attrs"
    "item_ok (Lit (CHR ''>'')) g"
    by auto
  from r5(3) have g: "g = [CHR ''>'']" by (auto split: list.splits simp: py_lower_lits)
  from r5(2) have attrs: "CHR ''>'' \<notin> set attrs"
    by (auto simp: list_all_iff py_lower_lits)
  have cc: "concat segs1 @ u
      = concat sl @ ws1 @ concat sc @ ws2 @ concat so @ attrs @ CHR ''>'' # u"
    by (simp add: 1(1) 2(1) 3(1) 4(1) 5(1) ws1(1) ws2(1) r5(1) g)
  show "opens_at label (concat segs1 @ u) u"
    unfolding opens_at_def cc
    using lits_okD [OF 1(2)] lits_okD [OF 3(2)] lits_okD [OF 5(2)] ws1(2) ws2(2) attrs
    by blast
  from list_all2_lengthD [OF assms] show "length segs1 = length label + 12"
    by simp
qed

lemma opening_okI:
  assumes "opens_at label t u"
  shows "\<exists>segs1. list_all2 item_ok
     (lits label @ [Star Space] @ lits ''</td>'' @ [Star Space] @ lits ''<td''
        @ [Star (NotChar (CHR ''>'')), Lit (CHR ''>'')]) segs1 \<and> t = concat segs1 @ u"
proof -
  from assms obtain lab ws1 c1 ws2 opn attrs where
    a: "t = lab @ ws1 @ c1 @ ws2 @ opn @ attrs @ CHR ''>'' # u"
       "ci_eq lab label" "list_all is_space ws1" "ci_eq c1 ''</td>''"
       "list_all is_space ws2" "ci_eq opn ''<td''" "CHR ''>'' \<notin> set attrs"
    unfolding opens_at_def by blast
  let ?segs = "map (\<lambda>a. [a]) lab @ [ws1] @ map (\<lambda>a. [a]) c1 @ [ws2] @ map (\<lambda>a. [a]) opn
      @ [attrs, [CHR ''>'']]"
  have w1: "list_all2 item_ok [Star Space] [ws1]" using a(3) by (simp add: list_all_iff)
  have w2: "list_all2 item_ok [Star Space] [ws2]" using a(5) by (simp add: list_all_iff)
  have at: "list_all2 item_ok [Star (NotChar (CHR ''>'')), Lit (CHR ''>'')] [attrs, [CHR ''>'']]"
    using a(7) by (auto simp: list_all_iff py_lower_lits)
  have "list_all2 item_ok
     (lits label @ [Star Space] @ lits ''</td>'' @ [Star Space] @ lits ''<td''
        @ [Star (NotChar (CHR ''>'')), Lit (CHR ''>'')]) ?segs"
    by (intro list_all2_appendI lits_okI a(2) a(4) a(6) w1 w2 at)
  moreover have "t = concat ?segs @ u" by (simp add: a(1))
  ultimately show ?thesis by blast
qed

lemma label_pattern_split:
  "label_pattern label =
     (lits label @ [Star Space] @ lits ''</td>'' @ [Star Space] @ lits ''<td''
        @ [Star (NotChar (CHR ''>'')), Lit (CHR ''>'')]) @ (LazyStar AnyChar # lits ''</td>'')"
  by (simp add: label_pattern_def)

lemma label_matchD:
  assumes "match_here (label_pattern label) t = Some (segs, rest)"
  shows "\<exists>u content c2. opens_at label t u \<and> u = content @ c2 @ rest \<and> ci_eq c2 ''</td>''
           \<and> group (length label + 12) 1 segs = content
           \<and> (\<forall>n < length content. match_here (lits ''</td>'') (drop n u) = None)"
proof -
  let ?P1 = "lits label @ [Star Space] @ lits ''</td>'' @ [Star Space] @ lits ''<td''
        @ [Star (NotChar (CHR ''>'')), Lit (CHR ''>'')]"
  from assms have "match_here (?P1 @ (LazyStar AnyChar # lits ''</td>'')) t = Some (segs, rest)"
    by (simp only: label_pattern_split)
  from match_here_append [OF this] obtain segs1 segs2 where
    s: "segs = segs1 @ segs2" "list_all2 item_ok ?P1 segs1"
       "match_here (LazyStar AnyChar # lits ''</td>'') (drop (length (concat segs1)) t) = Some (segs2, rest)"
    by blast
  define u where "u = drop (length (concat segs1)) t"
  from match_here_sound [OF assms] have t: "t = concat segs @ rest" by simp
  then have tu: "t = concat segs1 @ u" unfolding u_def using s(1) by simp
  from match_here_lazy_first [OF s(3) [folded u_def]] obtain seg segs' where
    l: "segs2 = seg # segs'" "seg = take (length seg) u"
       "match_here (lits ''</td>'') (drop (length seg) u) = Some (segs', rest)"
       "\<forall>n < length seg. match_here (lits ''</td>'') (drop n u) = None"
    by blast
  from match_here_sound [OF l(3)]
  have c2: "list_all2 item_ok (lits ''</td>'') segs'" "drop (length seg) u = concat segs' @ rest"
    by simp_all
  have "u = take (length seg) u @ drop (length seg) u" by simp
  with l(2) c2(2) have u: "u = seg @ concat segs' @ rest" by simp
  from opening_okD(1) [OF s(2), of u] tu opening_okD(2) [OF s(2)]
  have o: "opens_at label t u" "length segs1 = length label + 12" by simp_all
  have g: "group (length label + 12) 1 segs = seg"
    using o(2) by (simp add: group_def s(1) l(1))
  from o(1) u lits_okD [OF c2(1)] g l(4) show ?thesis by blast
qed

lemma label_match_complete:
  assumes "value_container_at label t content post"
  shows "match_here (label_pattern label) t \<noteq> None"
proof -
  from assms obtain c2 where c: "opens_at label t (content @ c2 @ post)" "ci_eq c2 ''</td>''"
    unfolding value_container_at_def by blast
  from opening_okI [OF c(1)] obtain segs1 where
    s: "list_all2 item_ok
     (lits label @ [Star Space] @ lits ''</td>'' @ [Star Space] @ lits ''<td''
        @ [Star (NotChar (CHR ''>'')), Lit (CHR ''>'')]) segs1" "t = concat segs1 @ content @ c2 @ post"
    by blast
  have "list_all2 item_ok (LazyStar AnyChar # lits ''</td>'') (content # map (\<lambda>a. [a]) c2)"
    using lits_okI [OF c(2)] by (simp add: list_all_iff)
  with s(1) have "list_all2 item_ok (label_pattern label) (segs1 @ content # map (\<lambda>a. [a]) c2)"
    unfolding label_pattern_split by (rule list_all2_appendI)
  from match_here_complete [OF this, of post] s(2) show ?thesis by simp
qed

lemma find_label_value_None_iff:
  "find_label_value charrefs html label = None \<longleftrightarrow>
     \<not> (\<exists>before t content post. html = before @ t \<and> value_container_at label t content post)"
proof
  assume "find_label_value charrefs html label = None"
  then have none: "search (label_pattern label) html = None"
    by (auto simp: find_label_value_def split: option.splits)
  show "\<not> (\<exists>before t content post. html = before @ t \<and> value_container_at label t content post)"
  proof
    assume "\<exists>before t content post. html = before @ t \<and> value_container_at label t content post"
    then obtain before t content post where
      h: "html = before @ t" "value_container_at label t content post" by blast
    from none have "\<forall>n \<le> length html. match_here (label_pattern label) (drop n html) = None"
      by (simp only: search_None_iff)
    moreover have "length before \<le> length html" using h(1) by simp
    ultimately have "match_here (label_pattern label) (drop (length before) html) = None"
      by blast
    with label_match_complete [OF h(2)] h(1) show False by simp
  qed
next
  assume no: "\<not> (\<exists>before t content post. html = before @ t \<and> value_container_at label t content post)"
  show "find_label_value charrefs html label = None"
  proof (cases "search (label_pattern label) html")
    case None
    then show ?thesis by (simp add: find_label_value_def)
  next
    case (Some m)
    obtain before segs rest where m: "m = (before, segs, rest)" by (cases m)
    from search_SomeD(1,2) [OF Some [unfolded m]]
    have s: "html = before @ concat segs @ rest"
      "match_here (label_pattern label) (drop (length before) html) = Some (segs, rest)"
      by simp_all
    from s have "match_here (label_pattern label) (concat segs @ rest) = Some (segs, rest)" by simp
    from label_matchD [OF this] obtain u content c2 where
      "opens_at label (concat segs @ rest) u" "u = content @ c2 @ rest" "ci_eq c2 ''</td>''"
      by blast
    then have "value_container_at label (concat segs @ rest) content rest"
      unfolding value_container_at_def by blast
    with s(1) no show ?thesis by blast
  qed
qed

lemma find_label_value_SomeD:
  assumes "find_label_value charrefs html label = Some v"
  shows "\<exists>before t content post.
           html = before @ t \<and> value_container_at label t content post
           \<and> v = clean_html charrefs content
           \<and> (\<forall>before' t' content' post'.
                 html = before' @ t' \<and> value_container_at label t' content' post' \<longrightarrow>
                   length before \<le> length before'
                   \<and> (length before' = length before \<longrightarrow> length content \<le> length content'))"
proof -
  from assms obtain before segs rest where
    sr: "search (label_pattern label) html = Some (before, segs, rest)"
    and v: "v = clean_html charrefs (group (length label + 12) 1 segs)"
    by (auto simp: find_label_value_def split: option.splits)
  from search_SomeD [OF sr]
  have s: "html = before @ concat segs @ rest"
    "match_here (label_pattern label) (drop (length before) html) = Some (segs, rest)"
    "\<forall>n < length before. match_here (label_pattern label) (drop n html) = None"
    by simp_all
  define t where "t = concat segs @ rest"
  have ht: "html = before @ t" using s(1) by (simp add: t_def)
  from s(2) have mt: "match_here (label_pattern label) t = Some (segs, rest)"
    by (simp add: ht)
  from label_matchD [OF mt] obtain u content c2 where
    d: "opens_at label t u" "u = content @ c2 @ rest" "ci_eq c2 ''</td>''"
       "group (length label + 12) 1 segs = content"
       "\<forall>n < length content. match_here (lits ''</td>'') (drop n u) = None"
    by blast
  have vc: "value_container_at label t content rest"
    unfolding value_container_at_def using d(1,2,3) by blast
  have least: "length before \<le> length before'
       \<and> (length before' = length before \<longrightarrow> length content \<le> length content')"
    if o: "html = before' @ t'" "value_container_at label t' content' post'"
    for before' t' content' post'
  proof
    show "length before \<le> length before'"
    proof (rule ccontr)
      assume "\<not> length before \<le> length before'"
      with s(3) have "match_here (label_pattern label) (drop (length before') html) = None"
        by simp
      with label_match_complete [OF o(2)] o(1) show False by simp
    qed
    show "length before' = length before \<longrightarrow> length content \<le> length content'"
    proof
      assume "length before' = length before"
      with o(1) ht have "t' = t" by simp
      from o(2) obtain c2' where
        c': "opens_at label t' (content' @ c2' @ post')" "ci_eq c2' ''</td>''"
        unfolding value_container_at_def by blast
      from opens_at_unique [OF d(1) c'(1) [unfolded \<open>t' = t\<close>]]
      have u': "u = content' @ c2' @ post'" .
      show "length content \<le> length content'"
      proof (rule ccontr)
        assume "\<not> length content \<le> length content'"
        with d(5) have "match_here (lits ''</td>'') (drop (length content') u) = None" by simp
        then have "match_here (lits ''</td>'') (c2' @ post') = None" by (simp add: u')
        with c'(2) show False unfolding match_lits_None_iff by blast
      qed
    qed
  qed
  show ?thesis
  proof (intro exI conjI)
    show "html = before @ t" by fact
    show "value_container_at label t content rest" by fact
    show "v = clean_html charrefs content" using v d(4) by simp
    show "\<forall>before' t' content' post'.
            html = before' @ t' \<and> value_container_at label t' content' post' \<longrightarrow>
              length before \<le> length before'
              \<and> (length before' = length before \<longrightarrow> length content \<le> length content')"
      using least by blast
  qed
qed


section \<open>Numeric Coercion, the parsers and the extractors: lemmas\<close>

lemma int_of_digits_snoc: "int_of_digits (ds @ [d]) = 10 * int_of_digits ds + digit_value d"
  by (simp add: int_of_digits_def)

lemma decimal_value_Nil [simp]: "decimal_value [] = 0"
  by (simp add: decimal_value_def)

lemma decimal_value_snoc: "decimal_value (ds @ [d]) = 10 * decimal_value ds + digit_value d"
proof -
  have upt: "[0 ..< Suc (length ds)] = 0 # map Suc [0 ..< length ds]"
    by (simp add: upt_conv_Cons map_Suc_upt del: upt_Suc)
  have "decimal_value (ds @ [d]) =
      digit_value d + sum_list (map (\<lambda>(d, i). digit_value d * 10 ^ i) (zip (rev ds) (map Suc [0 ..< length ds])))"
    unfolding decimal_value_def by (simp add: upt del: upt_Suc)
  also have "sum_list (map (\<lambda>(d, i). digit_value d * 10 ^ i) (zip (rev ds) (map Suc [0 ..< length ds])))
      = sum_list (map (\<lambda>(d, i). 10 * (digit_value d * 10 ^ i)) (zip (rev ds) [0 ..< length ds]))"
    by (simp add: zip_map2 case_prod_unfold comp_def mult.assoc mult.left_commute)
  also have "\<dots> = 10 * decimal_value ds"
    unfolding decimal_value_def
    by (simp add: sum_list_const_mult case_prod_unfold)
  finally show ?thesis by simp
qed

lemma int_of_digits_decimal: "int_of_digits ds = decimal_value ds"
proof (induction ds rule: rev_induct)
  case Nil
  then show ?case by (simp add: int_of_digits_def)
next
  case (snoc d ds)
  then show ?case by (simp add: int_of_digits_snoc decimal_value_snoc)
qed

lemma digit_value_nonneg: "is_digit d \<Longrightarrow> 0 \<le> digit_value d"
  by (simp add: is_digit_def digit_value_def Let_def)

lemma int_of_digits_nonneg: "list_all is_digit ds \<Longrightarrow> 0 \<le> int_of_digits ds"
proof (induction ds rule: rev_induct)
  case Nil
  then show ?case by (simp add: int_of_digits_def)
next
  case (snoc d ds)
  then show ?case using digit_value_nonneg [of d] by (simp add: int_of_digits_snoc)
qed

lemma list_all_filter_digits [simp]: "list_all is_digit (filter is_digit s)"
  by (simp add: list_all_iff)

lemma parse_int_eq:
  "parse_int v = (if too_many_digits v then Inl ValueError else Inr (numeric_coercion v))"
  by (cases v)
    (simp_all add: parse_int_def numeric_coercion_def py_int_def too_many_digits_def Let_def
       int_of_digits_decimal)

lemma parse_int_returns:
  "\<not> too_many_digits v \<Longrightarrow> parse_int v = Inr (numeric_coercion v)"
  by (simp add: parse_int_eq)

lemma parse_int_raises:
  "4300 < length (filter is_digit s) \<Longrightarrow> parse_int (Some s) = Inl ValueError"
  by (simp add: parse_int_eq too_many_digits_def)

lemma numeric_coercion_nonneg: "numeric_coercion v = Some n \<Longrightarrow> 0 \<le> n"
proof -
  assume a: "numeric_coercion v = Some n"
  then obtain s where "v = Some s" "n = decimal_value (filter is_digit s)"
    by (auto simp: numeric_coercion_def split: option.splits if_splits)
  then show ?thesis
    using int_of_digits_nonneg [of "filter is_digit s"] by (simp add: int_of_digits_decimal)
qed

lemma of_char_digit: "(k::nat) < 10 \<Longrightarrow> (of_char (char_of (48 + k)) :: nat) = 48 + k"
  by simp

lemma is_digit_char_of: "(k::nat) < 10 \<Longrightarrow> is_digit (char_of (48 + k))"
  by (simp add: is_digit_def of_char_digit)

lemma digit_value_char_of: "(k::nat) < 10 \<Longrightarrow> digit_value (char_of (48 + k)) = int k"
  by (simp add: digit_value_def of_char_digit)

lemma nat_digits_props:
  "nat_digits n \<noteq> [] \<and> list_all is_digit (nat_digits n) \<and> int_of_digits (nat_digits n) = int n"
proof (induction n rule: nat_digits.induct)
  case (1 n)
  show ?case
  proof (cases "n < 10")
    case True
    then show ?thesis
      by (simp add: nat_digits.simps [of n] is_digit_char_of digit_value_char_of int_of_digits_def)
  next
    case False
    from "1.IH" [OF False]
    have ih: "nat_digits (n div 10) \<noteq> []" "list_all is_digit (nat_digits (n div 10))"
      "int_of_digits (nat_digits (n div 10)) = int (n div 10)" by simp_all
    have m: "n mod 10 < 10" by simp
    have eq: "nat_digits n = nat_digits (n div 10) @ [char_of (48 + n mod 10)]"
      using False by (simp add: nat_digits.simps [of n])
    show ?thesis
      unfolding eq using ih is_digit_char_of [OF m] digit_value_char_of [OF m]
      by (simp add: int_of_digits_snoc zdiv_int zmod_int)
  qed
qed

lemma digit_value_le: "is_digit d \<Longrightarrow> digit_value d \<le> 9"
  by (simp add: is_digit_def digit_value_def Let_def)

lemma decimal_value_less: "list_all is_digit ds \<Longrightarrow> decimal_value ds < 10 ^ length ds"
proof (induction ds rule: rev_induct)
  case Nil
  then show ?case by simp
next
  case (snoc d ds)
  then have "decimal_value ds + 1 \<le> 10 ^ length ds" "digit_value d \<le> 9"
    by (simp_all add: digit_value_le)
  then have "10 * decimal_value ds + digit_value d < 10 * 10 ^ length ds" by linarith
  then show ?case by (simp add: decimal_value_snoc)
qed

lemma nat_digits_length: "n < 10 ^ k \<Longrightarrow> 0 < k \<Longrightarrow> length (nat_digits n) \<le> k"
proof (induction n arbitrary: k rule: nat_digits.induct)
  case (1 n)
  show ?case
  proof (cases "n < 10")
    case True
    then show ?thesis using "1.prems"(2) by (simp add: nat_digits.simps [of n])
  next
    case False
    obtain j where k: "k = Suc j" using "1.prems"(2) by (cases k) auto
    have j: "0 < j"
    proof (rule ccontr)
      assume "\<not> 0 < j"
      with k "1.prems"(1) False show False by simp
    qed
    have "n div 10 < 10 ^ j" using "1.prems"(1) k by (simp add: less_mult_imp_div_less mult.commute)
    from "1.IH" [OF False this j] have "length (nat_digits (n div 10)) \<le> j" .
    then show ?thesis using False k by (simp add: nat_digits.simps [of n])
  qed
qed

lemma filter_digits_id: "list_all is_digit s \<Longrightarrow> filter is_digit s = s"
  by (simp add: list_all_iff)

lemma parse_int_digits:
  assumes "s \<noteq> []" "list_all is_digit s" "length s \<le> 4300"
  shows "parse_int (Some s) = Inr (Some (decimal_value s))"
  using assms
  by (simp add: parse_int_eq numeric_coercion_def too_many_digits_def filter_digits_id)

lemma parse_int_digits_raises:
  assumes "list_all is_digit s" "4300 < length s"
  shows "parse_int (Some s) = Inl ValueError"
  using assms by (simp add: parse_int_raises filter_digits_id)

lemma parse_int_rendering:
  assumes "parse_int (Some s) = Inr (Some n)"
  shows "parse_int (Some (decimal_rendering n)) = Inr (Some n)"
proof -
  let ?ds = "filter is_digit s"
  from assms have few: "length ?ds \<le> 4300"
    by (simp add: parse_int_eq too_many_digits_def split: if_splits)
  from assms have nc: "numeric_coercion (Some s) = Some n"
    by (simp add: parse_int_eq split: if_splits)
  then have ds: "?ds \<noteq> []" and n: "n = decimal_value ?ds"
    by (auto simp: numeric_coercion_def split: if_splits)
  from nc have n0: "0 \<le> n" by (rule numeric_coercion_nonneg)
  have "n < 10 ^ length ?ds" unfolding n by (rule decimal_value_less) simp
  then have "int (nat n) < int (10 ^ length ?ds)" using n0 by simp
  then have lt: "nat n < 10 ^ length ?ds" by (simp only: of_nat_less_iff)
  from ds have "0 < length ?ds" by simp
  from nat_digits_length [OF lt this] few
  have len: "length (nat_digits (nat n)) \<le> 4300" by simp
  from nat_digits_props [of "nat n"] n0
  have p: "nat_digits (nat n) \<noteq> []" "list_all is_digit (nat_digits (nat n))"
    "int_of_digits (nat_digits (nat n)) = n"
    by simp_all
  have r: "decimal_rendering n = nat_digits (nat n)" using n0 by (simp add: decimal_rendering_def)
  from parse_int_digits [OF p(1,2) len] p(3) show ?thesis
    by (simp add: r int_of_digits_decimal)
qed


section \<open>The claims about the parser\<close>

subsection \<open>Numeric Coercion\<close>

lemma replicate_digits:
  "is_digit c \<Longrightarrow> filter is_digit (replicate n c) = replicate n c"
  by simp

lemma is_digit_9: "is_digit (CHR ''9'')"
  by (simp add: is_digit_def)

lemma is_digit_1: "is_digit (CHR ''1'')"
  by (simp add: is_digit_def)

text \<open>
  Claim C4 as stated says that Numeric Coercion never raises. On the text of 4301
  digits \<open>9\<close> it raises ValueError: \<open>int\<close> refuses a text of more than 4300 digits.
\<close>

theorem parse_int_total_counterexample:
  "parse_int (Some (replicate 4301 (CHR ''9''))) = Inl ValueError"
  by (rule parse_int_raises) (simp add: is_digit_9)

text \<open>
  Claim C4, as amended. On an input that holds at most 4300 digits Numeric Coercion
  returns and does not raise: it returns absent for an absent or empty input; for every
  other text it keeps the digits and drops every other character, and returns the
  number the digits denote in decimal, which is not negative, or absent when no digit
  is left. On a text that holds more than 4300 digits it raises ValueError.
\<close>

theorem parse_int_total:
  "(\<not> too_many_digits v \<longrightarrow> parse_int v = Inr (numeric_coercion v))
   \<and> (too_many_digits v \<longrightarrow> parse_int v = Inl ValueError)
   \<and> (\<forall>n. numeric_coercion v = Some n \<longrightarrow> 0 \<le> n)"
  using parse_int_eq [of v] numeric_coercion_nonneg [of v] by simp

lemma decimal_value_1000: "decimal_value ''1000'' = 1000"
  by code_simp

lemma few_digits_examples:
  "\<not> too_many_digits (Some ''1,000 mWh'')" "\<not> too_many_digits (Some ''n/a'')"
  "\<not> too_many_digits (Some [])" "\<not> too_many_digits None"
  by (simp_all add: too_many_digits_def)

theorem parse_int_total_witness:
  "parse_int (Some ''1,000 mWh'') = Inr (Some 1000) \<and> (0::int) \<le> 1000
   \<and> parse_int (Some ''n/a'') = Inr None
   \<and> parse_int (Some []) = Inr None
   \<and> parse_int None = Inr None
   \<and> parse_int (Some (replicate 5000 (CHR ''1''))) = Inl ValueError"
proof -
  have a: "numeric_coercion (Some ''1,000 mWh'') = Some 1000"
    by code_simp
  have b: "numeric_coercion (Some ''n/a'') = None"
    by code_simp
  have c: "numeric_coercion (Some []) = None" "numeric_coercion None = None"
    by (simp_all add: numeric_coercion_def)
  have d: "too_many_digits (Some (replicate 5000 (CHR ''1'')))"
    by (simp add: too_many_digits_def is_digit_1)
  from parse_int_total [of "Some ''1,000 mWh''"] a few_digits_examples(1)
  have "parse_int (Some ''1,000 mWh'') = Inr (Some 1000) \<and> (0::int) \<le> 1000" by simp
  moreover from parse_int_total [of "Some ''n/a''"] b few_digits_examples(2)
  have "parse_int (Some ''n/a'') = Inr None" by simp
  moreover from parse_int_total [of "Some []"] c(1) few_digits_examples(3)
  have "parse_int (Some []) = Inr None" by simp
  moreover from parse_int_total [of None] c(2) few_digits_examples(4)
  have "parse_int None = Inr None" by simp
  moreover from parse_int_total [of "Some (replicate 5000 (CHR ''1''))"] d
  have "parse_int (Some (replicate 5000 (CHR ''1''))) = Inl ValueError" by simp
  ultimately show ?thesis by blast
qed

text \<open>
  Claim C9 as stated says that Numeric Coercion returns the number that a text of
  digits denotes, for every such text that is not empty. On the text of 4301 digits
  \<open>1\<close> it raises ValueError and returns nothing.
\<close>

theorem parse_int_idempotent_counterexample:
  "parse_int (Some (replicate 4301 (CHR ''1''))) = Inl ValueError"
  by (rule parse_int_raises) (simp add: is_digit_1)

text \<open>
  Claim C9, as amended. On a text that is not empty and holds digits only, at most
  4300 of them, Numeric Coercion returns the number the text denotes; on a longer text
  of digits it raises ValueError. When the coercion of any text yields \<open>n\<close>, the
  coercion of the decimal rendering of \<open>n\<close> yields \<open>n\<close> again. The empty text and an
  absent input yield absent.
\<close>

theorem parse_int_idempotent:
  "(s \<noteq> [] \<and> list_all is_digit s \<and> length s \<le> 4300 \<longrightarrow>
      parse_int (Some s) = Inr (Some (decimal_value s)))
   \<and> (list_all is_digit s \<and> 4300 < length s \<longrightarrow> parse_int (Some s) = Inl ValueError)
   \<and> (\<forall>n. parse_int (Some s) = Inr (Some n) \<longrightarrow>
         parse_int (Some (decimal_rendering n)) = Inr (Some n))
   \<and> parse_int (Some []) = Inr None
   \<and> parse_int None = Inr None"
proof (intro conjI allI impI)
  assume "s \<noteq> [] \<and> list_all is_digit s \<and> length s \<le> 4300"
  then show "parse_int (Some s) = Inr (Some (decimal_value s))"
    using parse_int_digits by blast
next
  assume "list_all is_digit s \<and> 4300 < length s"
  then show "parse_int (Some s) = Inl ValueError"
    using parse_int_digits_raises by blast
next
  fix n
  assume "parse_int (Some s) = Inr (Some n)"
  then show "parse_int (Some (decimal_rendering n)) = Inr (Some n)"
    by (rule parse_int_rendering)
next
  show "parse_int (Some []) = Inr None" by (simp add: parse_int_def)
  show "parse_int None = Inr None" by (simp add: parse_int_def)
qed

lemma digits_1000: "''1000'' \<noteq> [] \<and> list_all is_digit ''1000'' \<and> length ''1000'' \<le> 4300"
  by code_simp

lemma decimal_rendering_1000: "decimal_rendering 1000 = ''1000''"
  by code_simp

lemma parse_int_1000_mwh: "parse_int (Some ''1,000 mWh'') = Inr (Some 1000)"
  by code_simp

lemma parse_int_007: "parse_int (Some ''007'') = Inr (Some 7)"
  by code_simp

lemma decimal_rendering_7: "decimal_rendering 7 = ''7''"
  by code_simp

theorem parse_int_idempotent_witness:
  "parse_int (Some ''1000'') = Inr (Some 1000)
   \<and> parse_int (Some ''1,000 mWh'') = Inr (Some 1000)
   \<and> parse_int (Some (decimal_rendering 1000)) = Inr (Some 1000)
   \<and> decimal_rendering 1000 = ''1000''
   \<and> parse_int (Some ''007'') = Inr (Some 7)
   \<and> parse_int (Some ''7'') = Inr (Some 7)
   \<and> parse_int (Some (replicate 4302 (CHR ''9''))) = Inl ValueError"
proof -
  from parse_int_idempotent [of "''1000''"] digits_1000
  have "parse_int (Some ''1000'') = Inr (Some 1000)" by (simp add: decimal_value_1000)
  moreover from parse_int_idempotent [of "''1,000 mWh''"] parse_int_1000_mwh
  have "parse_int (Some (decimal_rendering 1000)) = Inr (Some 1000)" by blast
  moreover from parse_int_idempotent [of "''007''"] parse_int_007
  have "parse_int (Some (decimal_rendering 7)) = Inr (Some 7)" by blast
  moreover from parse_int_idempotent [of "replicate 4302 (CHR ''9'')"]
  have "parse_int (Some (replicate 4302 (CHR ''9''))) = Inl ValueError"
    by (simp add: is_digit_9 list_all_iff)
  ultimately show ?thesis
    using parse_int_1000_mwh decimal_rendering_1000 parse_int_007 decimal_rendering_7 by simp
qed

subsection \<open>Field Extractor\<close>

text \<open>
  Claim C7 says that the Field Extractor matches the label exactly. The pattern of the
  extractor begins with the text of the label and is not tied to the start of the cell
  that holds it, so a label is also found at the end of a longer one. In the document
  below the row of the label \<open>System Product Name\<close> comes before the row of the label
  \<open>Name\<close>; asked for \<open>Name\<close>, the extractor returns the value of the first row,
  \<open>X1\<close>, and not \<open>BAT0\<close>.
\<close>

theorem find_label_value_label_suffix:
  "find_label_value id
     ''<tr><td>System Product Name</td><td>X1</td></tr><tr><td>Name</td><td>BAT0</td></tr>''
     ''Name'' = Some ''X1''
   \<and> find_label_value id ''<tr><td>Name</td><td>BAT0</td></tr>'' ''Name'' = Some ''BAT0''
   \<and> find_label_value id
     ''<tr><td>System Product Name</td><td>X1</td></tr><tr><td>Name</td><td>BAT0</td></tr>''
     ''System Product Name'' = Some ''X1''"
  by code_simp

end
